theory Spec2Isabelle
  imports Main "HOL-Library.Char_ord" "HOL-Library.List_Lexorder" "HOL-Library.Product_Lexorder"
    "HOL-Library.Multiset" "HOL-Library.Extended_Nat"
begin

section \<open>Data model\<close>

text \<open>
  A module record as both scripts read and write it (the objects
  \<^verbatim>\<open>{ url, name, suffix }\<close> of \<^verbatim>\<open>sorted-modules.json\<close>).
\<close>

record module =
  url :: string
  name :: string
  suffix :: string

text \<open>\<^verbatim>\<open>PROCESSING_HIERARCHY\<close>, the same array in the scanner and in the publisher.\<close>

definition PROCESSING_HIERARCHY :: "string list" where
  "PROCESSING_HIERARCHY =
     [''IS'', ''LS'', ''TH'', ''CS'', ''BL'', ''SBL'', ''OS'', ''API'', ''AP'', ''CW'', ''UI'']"

section \<open>JavaScript strings and arrays\<close>

text \<open>
  A string is a list of characters, and a character stands for the code unit of its
  code, 0 to 255; a string with a code unit above 255 is outside the model. Case mapping is
  that of the ASCII letters. For the other code units of the model JavaScript's
  \<^verbatim>\<open>toUpperCase\<close> gives a character outside ASCII, or \<^verbatim>\<open>SS\<close> for the sharp
  s, which no code of the hierarchy holds, and \<^verbatim>\<open>toLowerCase\<close> gives a character
  outside ASCII; so whether a string in upper case is a code of the hierarchy, and whether
  a string in lower case contains \<^verbatim>\<open>sandbox\<close>, is the same here and there.
\<close>

definition lowerLetters :: string where
  "lowerLetters = ''abcdefghijklmnopqrstuvwxyz''"

definition upperLetters :: string where
  "upperLetters = ''ABCDEFGHIJKLMNOPQRSTUVWXYZ''"

definition toUpperChar :: "char \<Rightarrow> char" where
  "toUpperChar c = (case map_of (zip lowerLetters upperLetters) c of Some u \<Rightarrow> u | None \<Rightarrow> c)"

definition toLowerChar :: "char \<Rightarrow> char" where
  "toLowerChar c = (case map_of (zip upperLetters lowerLetters) c of Some l \<Rightarrow> l | None \<Rightarrow> c)"

definition toUpperCase :: "string \<Rightarrow> string" where
  "toUpperCase s = map toUpperChar s"

definition toLowerCase :: "string \<Rightarrow> string" where
  "toLowerCase s = map toLowerChar s"

text \<open>\<^verbatim>\<open>s.startsWith(p)\<close> and \<^verbatim>\<open>s.includes(sub)\<close> on strings.\<close>

fun startsWith :: "string \<Rightarrow> string \<Rightarrow> bool" where
  "startsWith s [] = True"
| "startsWith [] (p # ps) = False"
| "startsWith (c # s) (p # ps) = (c = p \<and> startsWith s ps)"

fun includes_str :: "string \<Rightarrow> string \<Rightarrow> bool" where
  "includes_str [] sub = (sub = [])"
| "includes_str (c # s) sub = (startsWith (c # s) sub \<or> includes_str s sub)"

text \<open>
  \<^verbatim>\<open>s.split(sep)\<close> for a one-character separator. The result is never empty:
  \<^verbatim>\<open>"".split(",")\<close> is \<^verbatim>\<open>[""]\<close>.
\<close>

fun split_str :: "char \<Rightarrow> string \<Rightarrow> string list" where
  "split_str sep [] = [[]]"
| "split_str sep (c # s) =
     (if c = sep then [] # split_str sep s
      else (case split_str sep s of [] \<Rightarrow> [[c]] | w # ws \<Rightarrow> (c # w) # ws))"

text \<open>
  \<^verbatim>\<open>s.trim()\<close>: white space and line terminators off both ends. Among the code units
  of the model these are the tab, the line feed, the vertical tab, the form feed, the
  carriage return, the space and the no-break space.
\<close>

definition isWhiteSpace :: "char \<Rightarrow> bool" where
  "isWhiteSpace c \<longleftrightarrow>
     c \<in> set [CHR '' '', CHR 0x09, CHR 0x0A, CHR 0x0B, CHR 0x0C, CHR 0x0D, CHR 0xA0]"

definition trim :: "string \<Rightarrow> string" where
  "trim s = rev (dropWhile isWhiteSpace (rev (dropWhile isWhiteSpace s)))"

text \<open>\<^verbatim>\<open>xs.indexOf(x)\<close>: the first index of \<open>x\<close>, or \<open>-1\<close>.\<close>

fun indexOf :: "'a list \<Rightarrow> 'a \<Rightarrow> int" where
  "indexOf [] x = -1"
| "indexOf (y # ys) x = (if y = x then 0 else (let i = indexOf ys x in if i = -1 then -1 else i + 1))"

text \<open>
  A JavaScript \<^verbatim>\<open>Map\<close> with string keys keeps its entries in insertion order:
  an association list. \<^verbatim>\<open>set\<close> overwrites the value of a key in place and appends
  a new key at the end.
\<close>

type_synonym 'v js_map = "(string \<times> 'v) list"

definition Map_has :: "'v js_map \<Rightarrow> string \<Rightarrow> bool" where
  "Map_has m k \<longleftrightarrow> k \<in> set (map fst m)"

fun Map_set :: "'v js_map \<Rightarrow> string \<Rightarrow> 'v \<Rightarrow> 'v js_map" where
  "Map_set [] k v = [(k, v)]"
| "Map_set ((k', v') # m) k v = (if k' = k then (k, v) # m else (k', v') # Map_set m k v)"

definition Map_values :: "'v js_map \<Rightarrow> 'v list" where
  "Map_values m = map snd m"

text \<open>
  \<^verbatim>\<open>Array.prototype.sort(cmp)\<close> is a function of the host. ECMAScript specifies it
  as stable, and for a consistent comparator its result is the one stable ordering of the
  array; only the sign of what \<open>cmp\<close> returns is read. It is modelled by the stable
  insertion sort.
\<close>

fun insertBy :: "('a \<Rightarrow> 'a \<Rightarrow> int) \<Rightarrow> 'a \<Rightarrow> 'a list \<Rightarrow> 'a list" where
  "insertBy cmp x [] = [x]"
| "insertBy cmp x (y # ys) = (if cmp x y \<le> 0 then x # y # ys else y # insertBy cmp x ys)"

definition Array_sort :: "('a \<Rightarrow> 'a \<Rightarrow> int) \<Rightarrow> 'a list \<Rightarrow> 'a list" where
  "Array_sort cmp xs = foldr (insertBy cmp) xs []"

text \<open>
  \<^verbatim>\<open>String.prototype.localeCompare\<close> is a function of the host; called with one
  argument, as the comparator calls it, it compares by the collation of the default locale.
  The functions below take the name comparison as their parameter \<open>lc\<close>.
  \<open>localeCompare\<close> is the root collation, the one of the English locales, on names
  made of ASCII letters, digits and underscores: names are compared first by their
  characters with the case of letters ignored, the underscore before the digits and the
  digits before the letters, a name before its extensions; names that are equal so far are
  compared by the case of their letters, the first difference deciding, lower case before
  upper case. The result is \<open>-1\<close>, \<open>0\<close> or \<open>1\<close>. Any other character is given a
  place after the letters, by its code; the host's place for it is not modelled, and what
  is stated below of the order under \<open>localeCompare\<close> is stated of names made of these
  characters (\<open>collated\<close>).
\<close>

definition nameAlphabet :: string where
  "nameAlphabet = ''_0123456789''"

definition primaryWeight :: "char \<Rightarrow> nat" where
  "primaryWeight c =
     (case map_of (zip (nameAlphabet @ lowerLetters) [0..<37] @ zip upperLetters [11..<37]) c of
        Some w \<Rightarrow> w
      | None \<Rightarrow> 37 + of_char c)"

definition collated :: "string \<Rightarrow> bool" where
  "collated s \<longleftrightarrow> set s \<subseteq> set (nameAlphabet @ lowerLetters @ upperLetters)"

definition caseWeight :: "char \<Rightarrow> nat" where
  "caseWeight c = (if c \<in> set upperLetters then 1 else 0)"

definition collationKey :: "string \<Rightarrow> nat list \<times> nat list" where
  "collationKey s = (map primaryWeight s, map caseWeight s)"

definition localeCompare :: "string \<Rightarrow> string \<Rightarrow> int" where
  "localeCompare a b =
     (if collationKey a < collationKey b then -1
      else if collationKey a = collationKey b then 0 else 1)"

text \<open>
  What \<^verbatim>\<open>sort\<close> asks of a comparator for its result to be defined: the
  comparison is reflexive, reversing the arguments reverses the sign, and the order is
  transitive.
\<close>

definition consistent :: "('a \<Rightarrow> 'a \<Rightarrow> int) \<Rightarrow> bool" where
  "consistent cmp \<longleftrightarrow>
     (\<forall>a. cmp a a = 0) \<and>
     (\<forall>a b. (cmp a b < 0) = (0 < cmp b a)) \<and>
     (\<forall>a b c. cmp a b \<le> 0 \<and> cmp b c \<le> 0 \<longrightarrow> cmp a c \<le> 0)"

section \<open>The layer argument (scanner and publisher)\<close>

text \<open>What the scripts print, as far as the properties below read it.\<close>

datatype message =
    WarnNoValidLayers string
  | LogAvailableLayers
  | LogWillProcess "string list"

text \<open>
  \<^verbatim>\<open>parseRequestedLayers(args)\<close>, the same text in both scripts. The object
  \<^verbatim>\<open>layerMap\<close> is filled by the \<^verbatim>\<open>forEach\<close>; a look-up that finds nothing is
  \<^verbatim>\<open>undefined\<close> (falsy), one that finds a layer is a non-empty string (truthy). The
  look-up is by a string in upper case, and every property an object inherits has a lower
  case letter in its name, so only the layers are found.
  \<open>None\<close> is the \<^verbatim>\<open>null\<close> the function returns for "all layers". Both scripts
  call the function with the arguments of the command line, unless one of these is
  \<^verbatim>\<open>-h\<close> or \<^verbatim>\<open>--help\<close>: then they print the usage and exit before the call.
\<close>

definition layerMap :: "string \<Rightarrow> string option" where
  "layerMap = foldl (\<lambda>m layer. m(toUpperCase layer \<mapsto> layer)) Map.empty PROCESSING_HIERARCHY"

definition parseRequestedLayers :: "string list \<Rightarrow> string list option \<times> message list" where
  "parseRequestedLayers args =
     (if length args = 0 then (None, [])
      else
        let layersArg = hd args;
            layers = List.map_filter (\<lambda>layer. layerMap (toUpperCase layer))
                       (map trim (split_str CHR '','' layersArg))
        in if length layers = 0
           then (None, [WarnNoValidLayers layersArg, LogAvailableLayers])
           else (Some layers, [LogWillProcess layers]))"

text \<open>\<^verbatim>\<open>filterModulesByRequestedLayers\<close>, the same text in both scripts.\<close>

definition filterModulesByRequestedLayers :: "module list \<Rightarrow> string list option \<Rightarrow> module list" where
  "filterModulesByRequestedLayers modules requestedLayers =
     (case requestedLayers of
        None \<Rightarrow> modules
      | Some layers \<Rightarrow> filter (\<lambda>m. suffix m \<in> set layers) modules)"

section \<open>Scanner\<close>

text \<open>
  What the browser shows is the input. A call that the script awaits either gives its
  value or rejects; \<open>None\<close> in a field is the rejection (a time-out, a selector that
  matches nothing in \<^verbatim>\<open>$eval\<close>).
\<close>

record row =
  warningIcon :: "bool option"
  moduleLink :: "string option"
  moduleName :: "string option"

datatype next_button = Absent | Disabled | Enabled

record page_view =
  noModulesText :: "bool option"
  rows :: "row list option"
  nextButton :: "next_button option"
  refreshed :: bool

text \<open>
  The body of the row loop up to the record it would store (lines 207 to 224): no record
  when the row has no warning icon, when reading it rejects (the \<^verbatim>\<open>catch\<close> of the
  row), or when the name contains \<^verbatim>\<open>sandbox\<close>; a suffix outside the hierarchy
  becomes \<^verbatim>\<open>UI\<close>.
\<close>

definition rowRecord :: "row \<Rightarrow> module option" where
  "rowRecord r =
     (case warningIcon r of
        None \<Rightarrow> None
      | Some False \<Rightarrow> None
      | Some True \<Rightarrow>
          (case moduleLink r of
             None \<Rightarrow> None
           | Some link \<Rightarrow>
               (case moduleName r of
                  None \<Rightarrow> None
                | Some nm \<Rightarrow>
                    if includes_str (toLowerCase nm) ''sandbox'' then None
                    else
                      let sfx = last (split_str CHR ''_'' nm)
                      in Some \<lparr>url = link, name = nm,
                           suffix = (if sfx \<notin> set PROCESSING_HIERARCHY then ''UI'' else sfx)\<rparr>)))"

text \<open>The rest of the body (lines 226 to 229): store the record unless its url has one.\<close>

definition scanRow :: "module js_map \<Rightarrow> row \<Rightarrow> module js_map" where
  "scanRow modules r =
     (case rowRecord r of
        None \<Rightarrow> modules
      | Some m \<Rightarrow> if \<not> Map_has modules (url m) then Map_set modules (url m) m else modules)"

text \<open>
  How a call ends: it throws, it returns, or the pages given as input end while its loop
  is still asking for the next one (the loop has no bound of its own).
\<close>

datatype 'a ending = Threw | Unfinished | Returned 'a

text \<open>The \<^verbatim>\<open>while (true)\<close> loop of \<^verbatim>\<open>scrapeModulesWithWarnings\<close>, one page a round.\<close>

fun scrapeLoop :: "page_view list \<Rightarrow> module js_map \<Rightarrow> module js_map ending" where
  "scrapeLoop [] modules = Unfinished"
| "scrapeLoop (p # ps) modules =
     (case noModulesText p of
        None \<Rightarrow> Threw
      | Some True \<Rightarrow> Returned modules
      | Some False \<Rightarrow>
          (case rows p of
             None \<Rightarrow> Threw
           | Some rs \<Rightarrow>
               (let modules' = foldl scanRow modules rs
                in case nextButton p of
                     None \<Rightarrow> Threw
                   | Some Absent \<Rightarrow> Returned modules'
                   | Some Disabled \<Rightarrow> Returned modules'
                   | Some Enabled \<Rightarrow> if refreshed p then scrapeLoop ps modules' else Threw)))"

text \<open>
  \<^verbatim>\<open>scrapeModulesWithWarnings\<close>: the loop, then the second look at the table when
  the map is still empty (\<open>recheck\<close> is what \<^verbatim>\<open>page.$$\<close> gives then), then the values
  of the map as an array.
\<close>

definition scrapeModulesWithWarnings :: "page_view list \<Rightarrow> row list option \<Rightarrow> module list ending" where
  "scrapeModulesWithWarnings ps recheck =
     (case scrapeLoop ps [] of
        Threw \<Rightarrow> Threw
      | Unfinished \<Rightarrow> Unfinished
      | Returned modules \<Rightarrow>
          if length modules = 0 then
            (case recheck of
               None \<Rightarrow> Threw
             | Some rs \<Rightarrow> Returned (Map_values (foldl scanRow modules rs)))
          else Returned (Map_values modules))"

text \<open>
  \<^verbatim>\<open>sortModulesByHierarchy\<close>. The rank of a suffix is its index in the hierarchy, or
  \<^verbatim>\<open>Infinity\<close>. \<open>rankMinus\<close> is the sign of \<^verbatim>\<open>rankA - rankB\<close> where an
  \<^verbatim>\<open>Infinity\<close> makes the difference infinite, and the difference itself otherwise.
\<close>

definition rank :: "string \<Rightarrow> enat" where
  "rank s =
     (if indexOf PROCESSING_HIERARCHY s \<noteq> -1 then enat (nat (indexOf PROCESSING_HIERARCHY s))
      else \<infinity>)"

text \<open>
  The comparator has two lines that would assign to the constants \<^verbatim>\<open>rankA\<close> and
  \<^verbatim>\<open>rankB\<close> (a \<^verbatim>\<open>TypeError\<close>) under this condition on the suffix. The condition
  never holds (lemma \<open>reassignsRank_never\<close>), and the comparator below leaves the two lines
  out.
\<close>

definition reassignsRank :: "string \<Rightarrow> bool" where
  "reassignsRank s \<longleftrightarrow> rank s = \<infinity> \<and> s = ''UI''"

fun rankMinus :: "enat \<Rightarrow> enat \<Rightarrow> int" where
  "rankMinus (enat x) (enat y) = int x - int y"
| "rankMinus \<infinity> (enat y) = 1"
| "rankMinus (enat x) \<infinity> = -1"
| "rankMinus \<infinity> \<infinity> = 0"

definition compareModules :: "(string \<Rightarrow> string \<Rightarrow> int) \<Rightarrow> module \<Rightarrow> module \<Rightarrow> int" where
  "compareModules lc a b =
     (let rankA = rank (suffix a); rankB = rank (suffix b)
      in if rankA = rankB then lc (name a) (name b) else rankMinus rankA rankB)"

definition sortModulesByHierarchy :: "(string \<Rightarrow> string \<Rightarrow> int) \<Rightarrow> module list \<Rightarrow> module list" where
  "sortModulesByHierarchy lc modules = Array_sort (compareModules lc) modules"

text \<open>
  \<^verbatim>\<open>scanModules\<close>. The input says which of the awaited steps reject. \<open>snapshot\<close> is
  what the run leaves in \<^verbatim>\<open>sorted-modules.json\<close> (\<open>None\<close>: the file is not written);
  the promise resolves with the list, resolves with \<^verbatim>\<open>undefined\<close> (\<open>None\<close>) after
  the \<^verbatim>\<open>catch\<close>, or rejects when the \<^verbatim>\<open>catch\<close> itself throws.
\<close>

record scan_input =
  loginOk :: bool
  listPageOk :: bool
  warningFilterOk :: bool
  pages :: "page_view list"
  recheck :: "row list option"
  saveOk :: bool
  saveAgainOk :: bool

datatype promise = Resolved "module list option" | Rejected | Pending

record scan_result =
  snapshot :: "module list option"
  promise :: promise

text \<open>The \<^verbatim>\<open>catch\<close> block; \<open>modules\<close> is the variable of \<^verbatim>\<open>scanModules\<close> at that time.\<close>

definition scanCatch :: "string list option \<Rightarrow> scan_input \<Rightarrow> module list \<Rightarrow> scan_result" where
  "scanCatch requestedLayers i modules =
     (if length modules > 0 then
        (let filteredModules = filterModulesByRequestedLayers modules requestedLayers
         in if saveAgainOk i
            then \<lparr>snapshot = Some filteredModules, promise = Resolved None\<rparr>
            else \<lparr>snapshot = None, promise = Rejected\<rparr>)
      else \<lparr>snapshot = None, promise = Resolved None\<rparr>)"

definition scanModules ::
    "(string \<Rightarrow> string \<Rightarrow> int) \<Rightarrow> string list option \<Rightarrow> scan_input \<Rightarrow> scan_result" where
  "scanModules lc requestedLayers i =
     (if \<not> loginOk i \<or> \<not> listPageOk i \<or> \<not> warningFilterOk i then scanCatch requestedLayers i []
      else
        (case scrapeModulesWithWarnings (pages i) (recheck i) of
           Threw \<Rightarrow> scanCatch requestedLayers i []
         | Unfinished \<Rightarrow> \<lparr>snapshot = None, promise = Pending\<rparr>
         | Returned modules \<Rightarrow>
             (let sortedModules = sortModulesByHierarchy lc modules;
                  filteredModules = filterModulesByRequestedLayers sortedModules requestedLayers
              in if saveOk i
                 then \<lparr>snapshot = Some filteredModules, promise = Resolved (Some filteredModules)\<rparr>
                 else scanCatch requestedLayers i sortedModules)))"

text \<open>
  The handler at the end of the script: \<^verbatim>\<open>!modules\<close> holds for \<^verbatim>\<open>undefined\<close>
  and not for an array, also an empty one.
\<close>

datatype scan_report = FinishedWithErrors | ModulesReady "module list" | NoReport

definition scanReport :: "promise \<Rightarrow> scan_report" where
  "scanReport p =
     (case p of
        Resolved None \<Rightarrow> FinishedWithErrors
      | Resolved (Some modules) \<Rightarrow> ModulesReady modules
      | Rejected \<Rightarrow> NoReport
      | Pending \<Rightarrow> NoReport)"

section \<open>Scanner: the rows a scan reads\<close>

text \<open>
  The rows the \<^verbatim>\<open>while\<close> loop reads, in order: those of every page it reaches, up
  to the page on which it ends.
\<close>

fun loopRows :: "page_view list \<Rightarrow> row list" where
  "loopRows [] = []"
| "loopRows (p # ps) =
     (case noModulesText p of
        Some False \<Rightarrow>
          (case rows p of
             Some rs \<Rightarrow> rs @ (if nextButton p = Some Enabled \<and> refreshed p then loopRows ps else [])
           | None \<Rightarrow> [])
      | _ \<Rightarrow> [])"

text \<open>
  The rows a whole call of \<^verbatim>\<open>scrapeModulesWithWarnings\<close> reads: those of the loop,
  and those of the second look when the loop has left the map empty.
\<close>

definition rowsRead :: "page_view list \<Rightarrow> row list option \<Rightarrow> row list" where
  "rowsRead ps secondLook =
     loopRows ps @
       (if foldl scanRow [] (loopRows ps) = []
        then (case secondLook of Some rs \<Rightarrow> rs | None \<Rightarrow> [])
        else [])"

text \<open>The records the rows yield, in the order read: what the scan captures.\<close>

definition captured :: "row list \<Rightarrow> module list" where
  "captured rs = List.map_filter rowRecord rs"

text \<open>
  The invariant of the map while rows \<open>rs\<close> have been read: every entry is a captured
  record under its own url, and no url has two entries.
\<close>

definition keyed :: "row list \<Rightarrow> module js_map \<Rightarrow> bool" where
  "keyed rs modules \<longleftrightarrow>
     distinct (map fst modules) \<and> (\<forall>(k, m) \<in> set modules. url m = k \<and> m \<in> set (captured rs))"

section \<open>Publisher: the task queue\<close>

text \<open>
  The publisher keeps one module-level array \<^verbatim>\<open>taskQueue\<close> and one module-level
  counter \<^verbatim>\<open>taskIndex\<close>. They are the only state the tabs share.
\<close>

record queue_state =
  taskQueue :: "string list"
  taskIndex :: nat

text \<open>
  \<^verbatim>\<open>getNextTask\<close>: the element under the counter and the counter advanced, or
  \<^verbatim>\<open>null\<close> (here \<open>None\<close>) with the state unchanged. The function is synchronous, so
  on the single-threaded event loop each call runs to its end before another starts.
\<close>

definition getNextTask :: "queue_state \<Rightarrow> string option \<times> queue_state" where
  "getNextTask st =
     (if taskIndex st < length (taskQueue st)
      then (Some (taskQueue st ! taskIndex st), st\<lparr>taskIndex := taskIndex st + 1\<rparr>)
      else (None, st))"

text \<open>
  Callers of \<^verbatim>\<open>getNextTask\<close> in the order in which their calls happen: each entry of
  the first argument is the identity of the worker that calls next. The result pairs every
  caller with what its call returned.
\<close>

fun claims :: "'w list \<Rightarrow> queue_state \<Rightarrow> ('w \<times> string option) list \<times> queue_state" where
  "claims [] st = ([], st)"
| "claims (w # ws) st =
     (let (t, st') = getNextTask st;
          (rs, st'') = claims ws st'
      in ((w, t) # rs, st''))"

text \<open>The tasks handed out by a sequence of calls, in call order.\<close>

definition claimed :: "('w \<times> string option) list \<Rightarrow> string list" where
  "claimed rs = concat (map (\<lambda>(w, t). case t of None \<Rightarrow> [] | Some u \<Rightarrow> [u]) rs)"

text \<open>
  The queue as \<^verbatim>\<open>processURLs\<close> fills it: the urls of the records, pushed onto the
  empty array, the counter at 0.
\<close>

definition initialQueue :: "module list \<Rightarrow> queue_state" where
  "initialQueue ms = \<lparr>taskQueue = [] @ map url ms, taskIndex = 0\<rparr>"

section \<open>Publisher: retries\<close>

definition RETRY_LIMIT :: nat where
  "RETRY_LIMIT = 3"

definition TABS_PER_SUBDOMAIN :: nat where
  "TABS_PER_SUBDOMAIN = 2"

definition BASE_DOMAIN :: string where
  "BASE_DOMAIN = ''wodify.com''"

text \<open>\<^verbatim>\<open>SUBDOMAINS\<close>, from the value of \<^verbatim>\<open>WODIFY_ENV\<close>.\<close>

definition SUBDOMAINS :: "string \<Rightarrow> string list" where
  "SUBDOMAINS env = [env, env @ ''-coreap'', env @ ''-clientapp'', env @ ''-coreos'', env @ ''sc'']"

text \<open>The lines the retry loops print, as far as the properties below read them.\<close>

datatype log_event =
    LogAttempt nat
  | LogLoaded
  | LogError nat
  | LogGiveUp
  | LogPublishStarted
  | LogNothingToPublish

text \<open>
  \<^verbatim>\<open>navigateWithRetries\<close>. The input \<open>loads k\<close> says whether \<^verbatim>\<open>page.goto\<close>
  resolves when it is called after \<open>k\<close> failures. The result is \<^verbatim>\<open>true\<close>,
  \<^verbatim>\<open>false\<close>, or \<^verbatim>\<open>undefined\<close> (\<open>None\<close>) where the loop ends without a
  \<^verbatim>\<open>return\<close> (\<open>retries\<close> at the limit on entry), with the lines printed.
\<close>

function navigateLoop :: "(nat \<Rightarrow> bool) \<Rightarrow> nat \<Rightarrow> bool option \<times> log_event list" where
  "navigateLoop loads retries =
     (if retries < RETRY_LIMIT then
        (if loads retries then (Some True, [LogAttempt (retries + 1), LogLoaded])
         else
           (let retries' = retries + 1
            in if retries' = RETRY_LIMIT
               then (Some False, [LogAttempt (retries + 1), LogError retries', LogGiveUp])
               else (let (r, l) = navigateLoop loads retries'
                     in (r, [LogAttempt (retries + 1), LogError retries'] @ l))))
      else (None, []))"
  by pat_completeness auto
termination
  by (relation "measure (\<lambda>(loads, retries). RETRY_LIMIT - retries)") auto

definition navigateWithRetries :: "(nat \<Rightarrow> bool) \<Rightarrow> bool option \<times> log_event list" where
  "navigateWithRetries loads = navigateLoop loads 0"

text \<open>
  \<^verbatim>\<open>processPublishPage\<close>. One pass through the \<^verbatim>\<open>try\<close> block ends in one of
  three ways: an awaited call rejects (\<open>Throws\<close>), the publish button was clicked and the
  progress indicator seen (the \<^verbatim>\<open>return\<close> of line 220), or no row offers a publish
  button (the \<^verbatim>\<open>return\<close> of line 226). The input \<open>tries k\<close> is how the pass ends
  that starts after \<open>k\<close> failures. The function returns \<^verbatim>\<open>undefined\<close> on every
  path; the result here is what it printed.
\<close>

datatype attempt = Throws | PublishStarted | NothingToPublish

function publishLoop :: "(nat \<Rightarrow> attempt) \<Rightarrow> nat \<Rightarrow> log_event list" where
  "publishLoop tries retries =
     (if retries < RETRY_LIMIT then
        (case tries retries of
           PublishStarted \<Rightarrow> [LogAttempt (retries + 1), LogPublishStarted]
         | NothingToPublish \<Rightarrow> [LogAttempt (retries + 1), LogNothingToPublish]
         | Throws \<Rightarrow>
             (let retries' = retries + 1
              in if retries' = RETRY_LIMIT
                 then [LogAttempt (retries + 1), LogError retries', LogGiveUp]
                 else [LogAttempt (retries + 1), LogError retries'] @ publishLoop tries retries'))
      else [])"
  by pat_completeness auto
termination
  by (relation "measure (\<lambda>(tries, retries). RETRY_LIMIT - retries)") auto

definition processPublishPage :: "(nat \<Rightarrow> attempt) \<Rightarrow> log_event list" where
  "processPublishPage tries = publishLoop tries 0"

text \<open>The equations of the two loops are unfolded by hand, one pass at a time.\<close>

declare publishLoop.simps [simp del] navigateLoop.simps [simp del]

text \<open>The number of passes a retry loop made: one \<open>LogAttempt\<close> line each.\<close>

fun isAttempt :: "log_event \<Rightarrow> bool" where
  "isAttempt (LogAttempt k) = True"
| "isAttempt e = False"

definition attempts :: "log_event list \<Rightarrow> nat" where
  "attempts l = length (filter isAttempt l)"

section \<open>Publisher: the url a tab visits\<close>

text \<open>
  The regular expression \<^verbatim>\<open>/^https:\/\/[^.]+/\<close> on a string: the match, when there is
  one, is \<^verbatim>\<open>https://\<close> and the longest run of characters other than a dot after it,
  which must not be empty. The result is the matched text and the text after it.
\<close>

definition matchHost :: "string \<Rightarrow> (string \<times> string) option" where
  "matchHost task =
     (if startsWith task ''https://'' then
        (let body = drop 8 task;
             label = takeWhile (\<lambda>c. c \<noteq> CHR ''.'') body
         in if label = [] then None
            else Some (''https://'' @ label, dropWhile (\<lambda>c. c \<noteq> CHR ''.'') body))
      else None)"

text \<open>
  The replacement text of \<^verbatim>\<open>String.prototype.replace\<close> is a pattern:
  \<^verbatim>\<open>$$\<close> is a dollar sign, \<^verbatim>\<open>$&\<close> the matched text, \<^verbatim>\<open>$`\<close> the text
  before the match (empty here, the match starts the string) and \<^verbatim>\<open>$'\<close> the text
  after it; the expression has no groups, so every other dollar sign stands for itself.
\<close>

fun getSubstitution :: "string \<Rightarrow> string \<Rightarrow> string \<Rightarrow> string" where
  "getSubstitution matched after [] = []"
| "getSubstitution matched after [c] = [c]"
| "getSubstitution matched after (c # d # r) =
     (if c = CHR ''$'' \<and> d = CHR ''$'' then CHR ''$'' # getSubstitution matched after r
      else if c = CHR ''$'' \<and> d = CHR ''&'' then matched @ getSubstitution matched after r
      else if c = CHR ''$'' \<and> d = CHR 0x60 then getSubstitution matched after r
      else if c = CHR ''$'' \<and> d = CHR 0x27 then after @ getSubstitution matched after r
      else c # getSubstitution matched after (d # r))"

text \<open>
  The url of line 265:
  \<^verbatim>\<open>task.replace(/^https:\/\/[^.]+/, `https://${subdomain}`)\<close>.
\<close>

definition rewriteUrl :: "string \<Rightarrow> string \<Rightarrow> string" where
  "rewriteUrl subdomain task =
     (case matchHost task of
        None \<Rightarrow> task
      | Some (matched, after) \<Rightarrow>
          getSubstitution matched after (''https://'' @ subdomain) @ after)"

text \<open>
  The address \<^verbatim>\<open>login\<close> opens for a group, and whether a url is on that host.
\<close>

definition loginUrl :: "string \<Rightarrow> string" where
  "loginUrl subdomain = ''https://'' @ subdomain @ ''.'' @ BASE_DOMAIN @ ''/ServiceCenter/''"

definition onGroupHost :: "string \<Rightarrow> string \<Rightarrow> bool" where
  "onGroupHost subdomain u \<longleftrightarrow> startsWith u (''https://'' @ subdomain @ ''.'' @ BASE_DOMAIN @ ''/'')"

section \<open>Publisher: tabs and groups\<close>

text \<open>
  A tab is known by its subdomain and its number among the tabs of that subdomain. What
  the browser does with the item a tab has claimed is the input of that round of its loop:
  the \<^verbatim>\<open>page.goto\<close> of line 267 rejects; or the page loads and
  \<^verbatim>\<open>isModuleInWarning\<close> is false (it catches its own errors and returns false); or
  it is true and \<^verbatim>\<open>processPublishPage\<close> runs with the given passes.
\<close>

type_synonym tab = "string \<times> nat"

datatype item_input = GotoRejects | NotInWarning | InWarning "nat \<Rightarrow> attempt"

text \<open>What a tab does, in order: the calls that matter and the lines it prints.\<close>

datatype step =
    Claimed string
  | NoTask
  | Processing string
  | SkippedNoWarning string
  | PublishPage string "log_event list"
  | TabError
  | TabFinished

record pool =
  queue :: queue_state
  running :: "tab list"
  trace :: "(tab \<times> step) list"

text \<open>
  One round of the \<^verbatim>\<open>while (true)\<close> loop of \<^verbatim>\<open>processTab\<close>. The tab
  leaves the loop at \<^verbatim>\<open>if (!task) break\<close>, and is done, when what
  \<^verbatim>\<open>getNextTask\<close> gave is \<^verbatim>\<open>null\<close> or the empty string, the one string that
  is falsy; the counter has moved on in the second case. The \<^verbatim>\<open>try\<close> is around the
  whole loop: when \<^verbatim>\<open>page.goto\<close> rejects, the \<^verbatim>\<open>catch\<close> prints the error,
  the \<^verbatim>\<open>finally\<close> closes the page, and the tab is done.
\<close>

definition leaveLoop :: "tab \<Rightarrow> queue_state \<Rightarrow> pool \<Rightarrow> pool" where
  "leaveLoop w q s =
     s\<lparr>queue := q, running := removeAll w (running s),
       trace := trace s @ [(w, NoTask), (w, TabFinished)]\<rparr>"

definition processTabRound :: "tab \<Rightarrow> item_input \<Rightarrow> pool \<Rightarrow> pool" where
  "processTabRound w i s =
     (let (task, q) = getNextTask (queue s)
      in case task of
           None \<Rightarrow> leaveLoop w q s
         | Some t \<Rightarrow>
             if t = [] then leaveLoop w q s
             else
               (let u = rewriteUrl (fst w) t
                in case i of
                     GotoRejects \<Rightarrow>
                       s\<lparr>queue := q, running := removeAll w (running s),
                         trace := trace s @ [(w, Claimed t), (w, Processing u), (w, TabError),
                                             (w, TabFinished)]\<rparr>
                   | NotInWarning \<Rightarrow>
                       s\<lparr>queue := q,
                         trace := trace s @ [(w, Claimed t), (w, Processing u),
                                             (w, SkippedNoWarning u)]\<rparr>
                   | InWarning tries \<Rightarrow>
                       s\<lparr>queue := q,
                         trace := trace s @ [(w, Claimed t), (w, Processing u),
                                             (w, PublishPage u (processPublishPage tries))]\<rparr>))"

text \<open>
  The tabs run on one event loop. The only state they share is the queue, and a round
  touches it once, in the synchronous \<^verbatim>\<open>getNextTask\<close> at its start; so a run is
  the rounds in the order of those calls. A schedule lists, for each round, the tab that
  makes it and what the browser does with the item; a round of a tab that is done does not
  happen.
\<close>

fun runTabs :: "(tab \<times> item_input) list \<Rightarrow> pool \<Rightarrow> pool" where
  "runTabs [] s = s"
| "runTabs ((w, i) # es) s =
     runTabs es (if w \<in> set (running s) then processTabRound w i s else s)"

text \<open>
  \<^verbatim>\<open>processURLs\<close> and \<^verbatim>\<open>processThread\<close> up to the start of the tabs: the urls of
  the filtered records are pushed onto the one queue, and every subdomain whose login
  resolves starts \<^verbatim>\<open>TABS_PER_SUBDOMAIN\<close> tabs; a subdomain whose login rejects
  starts none.
\<close>

definition startTabs :: "string \<Rightarrow> (string \<Rightarrow> bool) \<Rightarrow> tab list" where
  "startTabs env loginResolves =
     concat (map (\<lambda>subdomain. if loginResolves subdomain
                               then map (\<lambda>i. (subdomain, i)) [0..<TABS_PER_SUBDOMAIN]
                               else [])
               (SUBDOMAINS env))"

definition processURLs ::
    "string \<Rightarrow> (string \<Rightarrow> bool) \<Rightarrow> module list \<Rightarrow> string list option
       \<Rightarrow> (tab \<times> item_input) list \<Rightarrow> pool" where
  "processURLs env loginResolves moduleData requestedLayers schedule =
     runTabs schedule
       \<lparr>queue = initialQueue (filterModulesByRequestedLayers moduleData requestedLayers),
        running = startTabs env loginResolves,
        trace = []\<rparr>"

text \<open>
  The items given out, in order: the subdomain of the tab and the task it went on to
  process. A task that made its tab leave the loop is not among them.
\<close>

definition dispatchLog :: "pool \<Rightarrow> (string \<times> string) list" where
  "dispatchLog s =
     concat (map (\<lambda>(w, a). case a of Claimed t \<Rightarrow> [(fst w, t)] | _ \<Rightarrow> []) (trace s))"

text \<open>The items given to the tabs of one group, and the items given out over all groups.\<close>

definition dispatched :: "string \<Rightarrow> pool \<Rightarrow> string list" where
  "dispatched subdomain s = map snd (filter (\<lambda>(g, t). g = subdomain) (dispatchLog s))"

definition dispatchedAll :: "pool \<Rightarrow> string list" where
  "dispatchedAll s = map snd (dispatchLog s)"

text \<open>Whether some tab has left its loop at \<^verbatim>\<open>if (!task) break\<close>.\<close>

definition leftAtNoTask :: "pool \<Rightarrow> bool" where
  "leftAtNoTask s \<longleftrightarrow> NoTask \<in> set (map snd (trace s))"

text \<open>
  The invariant of a run: the queue array is the one the run started with, the counter
  is within it, the items given out are the non-empty ones below the counter, and a tab
  has left at \<^verbatim>\<open>if (!task) break\<close> only if the counter is at the end or an empty
  url is below it.
\<close>

definition served :: "string list \<Rightarrow> pool \<Rightarrow> bool" where
  "served q s \<longleftrightarrow>
     taskQueue (queue s) = q \<and> taskIndex (queue s) \<le> length q
     \<and> dispatchedAll s = filter (\<lambda>t. t \<noteq> []) (take (taskIndex (queue s)) q)
     \<and> (leftAtNoTask s \<longrightarrow> taskIndex (queue s) = length q \<or> [] \<in> set (take (taskIndex (queue s)) q))"

section \<open>Example inputs\<close>

definition exampleSnapshot :: "module list" where
  "exampleSnapshot =
     [\<lparr>url = ''https://devsc.wodify.com/a'', name = ''A_IS'', suffix = ''IS''\<rparr>,
      \<lparr>url = ''https://devsc.wodify.com/b'', name = ''B_OS'', suffix = ''OS''\<rparr>,
      \<lparr>url = ''https://devsc.wodify.com/c'', name = ''C_UI'', suffix = ''UI''\<rparr>]"

text \<open>The publisher started on the example snapshot, every login resolving, no round made yet.\<close>

definition examplePool :: pool where
  "examplePool = processURLs ''dev'' (\<lambda>subdomain. True) exampleSnapshot None []"

text \<open>
  A scan of one page with four rows, all with the warning icon: two modules, a module whose
  name contains \<^verbatim>\<open>SandBox\<close>, and the first module's url once more under another name.
\<close>

definition exampleRows :: "row list" where
  "exampleRows =
     [\<lparr>warningIcon = Some True, moduleLink = Some ''https://devsc.wodify.com/a'',
       moduleName = Some ''X_OS''\<rparr>,
      \<lparr>warningIcon = Some True, moduleLink = Some ''https://devsc.wodify.com/b'',
       moduleName = Some ''Y_UI''\<rparr>,
      \<lparr>warningIcon = Some True, moduleLink = Some ''https://devsc.wodify.com/c'',
       moduleName = Some ''My_SandBox_CS''\<rparr>,
      \<lparr>warningIcon = Some True, moduleLink = Some ''https://devsc.wodify.com/a'',
       moduleName = Some ''X_OS_dup''\<rparr>]"

definition exampleScan :: scan_input where
  "exampleScan =
     \<lparr>loginOk = True, listPageOk = True, warningFilterOk = True,
      pages = [\<lparr>noModulesText = Some False, rows = Some exampleRows,
                nextButton = Some Absent, refreshed = False\<rparr>],
      recheck = None, saveOk = True, saveAgainOk = True\<rparr>"

text \<open>
  A scan whose first page shows the example rows and an enabled Next button, and whose
  table then does not change: the wait after the click times out.
\<close>

definition failingScan :: scan_input where
  "failingScan =
     \<lparr>loginOk = True, listPageOk = True, warningFilterOk = True,
      pages = [\<lparr>noModulesText = Some False, rows = Some exampleRows,
                nextButton = Some Enabled, refreshed = False\<rparr>],
      recheck = None, saveOk = True, saveAgainOk = True\<rparr>"

text \<open>
  A complete run of the publisher on the example snapshot: three rounds that are given
  the three items, then one round of every tab, which gets \<^verbatim>\<open>null\<close> and leaves.
\<close>

definition exampleSchedule :: "(tab \<times> item_input) list" where
  "exampleSchedule =
     [((''dev'', 0), NotInWarning), ((''dev-coreap'', 0), NotInWarning),
      ((''dev'', 1), InWarning (\<lambda>k. PublishStarted))]
     @ map (\<lambda>w. (w, NotInWarning)) (startTabs ''dev'' (\<lambda>subdomain. True))"

text \<open>
  A run in which the login resolves on the first subdomain only, and the first
  navigation of each of its two tabs times out.
\<close>

definition failingSchedule :: "(tab \<times> item_input) list" where
  "failingSchedule =
     [((''dev'', 0), GotoRejects), ((''dev'', 1), GotoRejects),
      ((''dev'', 0), NotInWarning), ((''dev'', 1), NotInWarning)]"

text \<open>
  Five records out of order: two of one layer whose names differ in case only, one whose
  suffix is not in the hierarchy.
\<close>

definition exampleUnsorted :: "module list" where
  "exampleUnsorted =
     [\<lparr>url = ''https://devsc.wodify.com/y'', name = ''Y_UI'', suffix = ''UI''\<rparr>,
      \<lparr>url = ''https://devsc.wodify.com/b2'', name = ''B_OS'', suffix = ''OS''\<rparr>,
      \<lparr>url = ''https://devsc.wodify.com/q'', name = ''Q_ZZ'', suffix = ''ZZ''\<rparr>,
      \<lparr>url = ''https://devsc.wodify.com/b1'', name = ''b_OS'', suffix = ''OS''\<rparr>,
      \<lparr>url = ''https://devsc.wodify.com/a'', name = ''A_IS'', suffix = ''IS''\<rparr>]"

text \<open>
  Four records, two in each of two layers, each pair in the order of the character codes
  of the names.
\<close>

definition exampleTies :: "module list" where
  "exampleTies =
     [\<lparr>url = ''https://devsc.wodify.com/b2'', name = ''B_OS'', suffix = ''OS''\<rparr>,
      \<lparr>url = ''https://devsc.wodify.com/b1'', name = ''b_OS'', suffix = ''OS''\<rparr>,
      \<lparr>url = ''https://devsc.wodify.com/f1'', name = ''FooBar_CS'', suffix = ''CS''\<rparr>,
      \<lparr>url = ''https://devsc.wodify.com/f2'', name = ''Foo_CS'', suffix = ''CS''\<rparr>]"

section \<open>Properties of the task queue\<close>

lemma claims_results:
  "map snd (fst (claims ws st)) =
     map Some (take (length ws) (drop (taskIndex st) (taskQueue st)))
       @ replicate (length ws - (length (taskQueue st) - taskIndex st)) None"
proof (induction ws arbitrary: st)
  case Nil
  then show ?case by simp
next
  case (Cons w ws)
  show ?case
  proof (cases "taskIndex st < length (taskQueue st)")
    case True
    then have d: "drop (taskIndex st) (taskQueue st)
        = taskQueue st ! taskIndex st # drop (Suc (taskIndex st)) (taskQueue st)"
      by (simp add: Cons_nth_drop_Suc)
    have s: "length ws - (length (taskQueue st) - Suc (taskIndex st))
        = Suc (length ws) - (length (taskQueue st) - taskIndex st)"
      using True by arith
    show ?thesis
      using True Cons.IH [of "st\<lparr>taskIndex := taskIndex st + 1\<rparr>"]
      by (simp add: getNextTask_def split_beta d s)
  next
    case False
    then show ?thesis
      using Cons.IH [of st]
      by (simp add: getNextTask_def split_beta replicate_Suc [symmetric] Suc_diff_le
               del: replicate_Suc)
  qed
qed

lemma claims_callers: "map fst (fst (claims ws st)) = ws"
  by (induction ws arbitrary: st) (simp_all add: split_beta)

lemma claimed_append: "claimed (xs @ ys) = claimed xs @ claimed ys"
  by (simp add: claimed_def)

lemma claimed_Some:
  "map snd rs = map Some us @ replicate k None \<Longrightarrow> claimed rs = us"
proof (induction rs arbitrary: us k)
  case Nil
  then show ?case by (simp add: claimed_def)
next
  case (Cons r rs)
  obtain w t where r: "r = (w, t)" by (cases r)
  show ?case
  proof (cases us)
    case Nil
    with Cons.prems r have t: "t = None" and rest: "map snd rs = map Some [] @ replicate (k - 1) None"
      by (cases k; simp)+
    from Cons.IH [OF rest] have "claimed rs = []" .
    then show ?thesis using Nil t r by (simp add: claimed_def)
  next
    case (Cons u us')
    with Cons.prems r have t: "t = Some u" and rest: "map snd rs = map Some us' @ replicate k None"
      by simp_all
    from Cons.IH [OF rest] have "claimed rs = us'" .
    then show ?thesis using Cons t r by (simp add: claimed_def)
  qed
qed

lemma count_list_distinct: "distinct xs \<Longrightarrow> x \<in> set xs \<Longrightarrow> count_list xs x = 1"
  by (induction xs) auto

text \<open>
  Claim C4. Let the queue hold the urls of a snapshot \<open>S\<close> whose urls are distinct, and
  let any workers call \<^verbatim>\<open>getNextTask\<close> in any order \<open>ws\<close>. The tasks
  handed out are the urls of \<open>S\<close> in their order, as far as the calls reach; none is
  handed out twice; every call from the \<open>N+1\<close>-th on returns \<^verbatim>\<open>null\<close>; and when
  there are at least \<open>N\<close> calls, the first \<open>N\<close> are the successful ones and every
  record is claimed exactly once.
\<close>

theorem work_queue_claims_each_once:
  assumes "distinct (map url S)"
  shows "claimed (fst (claims ws (initialQueue S))) = take (length ws) (map url S)
       \<and> distinct (claimed (fst (claims ws (initialQueue S))))
       \<and> map fst (fst (claims ws (initialQueue S))) = ws
       \<and> (\<forall>r \<in> set (drop (length S) (fst (claims ws (initialQueue S)))). snd r = None)
       \<and> (length S \<le> length ws \<longrightarrow>
            map snd (take (length S) (fst (claims ws (initialQueue S)))) = map (\<lambda>m. Some (url m)) S
          \<and> (\<forall>m \<in> set S. count_list (claimed (fst (claims ws (initialQueue S)))) (url m) = 1))"
proof -
  let ?rs = "fst (claims ws (initialQueue S))"
  let ?q = "map url S"
  have res: "map snd ?rs = map Some (take (length ws) ?q) @ replicate (length ws - length S) None"
    using claims_results [of ws "initialQueue S"] by (simp add: initialQueue_def)
  have c: "claimed ?rs = take (length ws) ?q"
    by (rule claimed_Some [OF res])
  have d: "distinct (claimed ?rs)"
    using assms by (simp add: c)
  have late: "\<forall>r \<in> set (drop (length S) ?rs). snd r = None"
  proof -
    have "map snd (drop (length S) ?rs) = drop (length S) (map snd ?rs)"
      by (simp add: drop_map)
    also have "\<dots> = replicate (length ws - length S) None"
      by (simp add: res min_def)
    finally have "set (map snd (drop (length S) ?rs)) \<subseteq> {None}"
      by auto
    then show ?thesis by auto
  qed
  have full: "map snd (take (length S) ?rs) = map (\<lambda>m. Some (url m)) S
      \<and> (\<forall>m \<in> set S. count_list (claimed ?rs) (url m) = 1)"
    if le: "length S \<le> length ws"
  proof
    have "map snd (take (length S) ?rs) = take (length S) (map snd ?rs)"
      by (simp add: take_map)
    also have "\<dots> = map Some ?q"
      using le by (simp add: res)
    finally show "map snd (take (length S) ?rs) = map (\<lambda>m. Some (url m)) S"
      by (simp add: comp_def)
    have "claimed ?rs = ?q" using le by (simp add: c)
    then show "\<forall>m \<in> set S. count_list (claimed ?rs) (url m) = 1"
      using assms by (simp add: count_list_distinct)
  qed
  show ?thesis
    using c d late full claims_callers [of ws "initialQueue S"] by blast
qed

text \<open>Three records, five calls by three workers: all three urls, then two \<^verbatim>\<open>null\<close>s.\<close>

theorem work_queue_claims_each_once_witness:
  "distinct (map url exampleSnapshot)
   \<and> claimed (fst (claims [1, 2, 1, 2, 3 :: nat] (initialQueue exampleSnapshot)))
       = map url exampleSnapshot
   \<and> map snd (drop 3 (fst (claims [1, 2, 1, 2, 3 :: nat] (initialQueue exampleSnapshot))))
       = [None, None]"
  using work_queue_claims_each_once [of exampleSnapshot "[1, 2, 1, 2, 3 :: nat]"]
  by (simp add: exampleSnapshot_def initialQueue_def getNextTask_def claimed_def)

section \<open>Properties of the retry loops\<close>

lemma publishLoop_returns:
  "retries < RETRY_LIMIT \<Longrightarrow> tries retries \<noteq> Throws \<Longrightarrow>
   publishLoop tries retries =
     [LogAttempt (retries + 1),
      (if tries retries = PublishStarted then LogPublishStarted else LogNothingToPublish)]"
  by (subst publishLoop.simps) (cases "tries retries"; simp)

lemma publishLoop_throws:
  "retries < RETRY_LIMIT \<Longrightarrow> tries retries = Throws \<Longrightarrow>
   publishLoop tries retries =
     [LogAttempt (retries + 1), LogError (retries + 1)]
       @ (if retries + 1 = RETRY_LIMIT then [LogGiveUp] else publishLoop tries (retries + 1))"
  by (subst publishLoop.simps) (simp add: Let_def)

lemma navigateLoop_loads:
  "retries < RETRY_LIMIT \<Longrightarrow> loads retries \<Longrightarrow>
   navigateLoop loads retries = (Some True, [LogAttempt (retries + 1), LogLoaded])"
  by (subst navigateLoop.simps) simp

lemma navigateLoop_fails:
  "retries < RETRY_LIMIT \<Longrightarrow> \<not> loads retries \<Longrightarrow>
   navigateLoop loads retries =
     (if retries + 1 = RETRY_LIMIT
      then (Some False, [LogAttempt (retries + 1), LogError (retries + 1), LogGiveUp])
      else (fst (navigateLoop loads (retries + 1)),
            [LogAttempt (retries + 1), LogError (retries + 1)]
              @ snd (navigateLoop loads (retries + 1))))"
  by (subst navigateLoop.simps) (simp add: Let_def split_beta)

text \<open>
  Claim C6. With the retry limit 3: when the first two passes fail and the third does not,
  the loop ends with the result of the third pass after exactly three passes; when all
  three passes fail, it ends with the terminal failure (the line that gives the item up;
  \<^verbatim>\<open>navigateWithRetries\<close> returns \<^verbatim>\<open>false\<close>) after exactly three passes.
  The statement reads the input only at the passes 0, 1 and 2, so nothing depends on a
  fourth. It holds for the loop of \<^verbatim>\<open>processPublishPage\<close> and for that of
  \<^verbatim>\<open>navigateWithRetries\<close>.
\<close>

theorem retry_policy_three_attempts:
  "(tries 0 = Throws \<and> tries 1 = Throws \<and> tries 2 \<noteq> Throws \<longrightarrow>
      processPublishPage tries =
        [LogAttempt 1, LogError 1, LogAttempt 2, LogError 2, LogAttempt 3,
         (if tries 2 = PublishStarted then LogPublishStarted else LogNothingToPublish)]
      \<and> attempts (processPublishPage tries) = 3)
   \<and> (tries 0 = Throws \<and> tries 1 = Throws \<and> tries 2 = Throws \<longrightarrow>
      processPublishPage tries =
        [LogAttempt 1, LogError 1, LogAttempt 2, LogError 2, LogAttempt 3, LogError 3, LogGiveUp]
      \<and> attempts (processPublishPage tries) = 3)
   \<and> (\<not> loads 0 \<and> \<not> loads 1 \<and> loads 2 \<longrightarrow>
      navigateWithRetries loads =
        (Some True, [LogAttempt 1, LogError 1, LogAttempt 2, LogError 2, LogAttempt 3, LogLoaded])
      \<and> attempts (snd (navigateWithRetries loads)) = 3)
   \<and> (\<not> loads 0 \<and> \<not> loads 1 \<and> \<not> loads 2 \<longrightarrow>
      navigateWithRetries loads =
        (Some False,
         [LogAttempt 1, LogError 1, LogAttempt 2, LogError 2, LogAttempt 3, LogError 3, LogGiveUp])
      \<and> attempts (snd (navigateWithRetries loads)) = 3)"
proof -
  have p: "processPublishPage tries = [LogAttempt 1, LogError 1, LogAttempt 2, LogError 2] @ publishLoop tries 2"
    if "tries 0 = Throws" "tries 1 = Throws"
    using that publishLoop_throws [of 0 tries] publishLoop_throws [of 1 tries]
    by (simp add: processPublishPage_def RETRY_LIMIT_def eval_nat_numeral)
  have p1: "publishLoop tries 2 =
      [LogAttempt 3, (if tries 2 = PublishStarted then LogPublishStarted else LogNothingToPublish)]"
    if "tries 2 \<noteq> Throws"
    using that publishLoop_returns [of 2 tries] by (simp add: RETRY_LIMIT_def eval_nat_numeral)
  have p2: "publishLoop tries 2 = [LogAttempt 3, LogError 3, LogGiveUp]" if "tries 2 = Throws"
    using that publishLoop_throws [of 2 tries] by (simp add: RETRY_LIMIT_def eval_nat_numeral)
  have n: "navigateWithRetries loads =
      (fst (navigateLoop loads 2), [LogAttempt 1, LogError 1, LogAttempt 2, LogError 2] @ snd (navigateLoop loads 2))"
    if "\<not> loads 0" "\<not> loads 1"
    using that navigateLoop_fails [of 0 loads] navigateLoop_fails [of 1 loads]
    by (simp add: navigateWithRetries_def RETRY_LIMIT_def eval_nat_numeral)
  have n1: "navigateLoop loads 2 = (Some True, [LogAttempt 3, LogLoaded])" if "loads 2"
    using that navigateLoop_loads [of 2 loads] by (simp add: RETRY_LIMIT_def eval_nat_numeral)
  have n2: "navigateLoop loads 2 = (Some False, [LogAttempt 3, LogError 3, LogGiveUp])" if "\<not> loads 2"
    using that navigateLoop_fails [of 2 loads] by (simp add: RETRY_LIMIT_def eval_nat_numeral)
  show ?thesis
    using p p1 p2 n n1 n2 by (auto simp: attempts_def)
qed

text \<open>Two failures and a success, and three failures, for both loops.\<close>

theorem retry_policy_three_attempts_witness:
  "processPublishPage (\<lambda>k. if k < 2 then Throws else PublishStarted)
     = [LogAttempt 1, LogError 1, LogAttempt 2, LogError 2, LogAttempt 3, LogPublishStarted]
   \<and> attempts (processPublishPage (\<lambda>k. Throws)) = 3
   \<and> fst (navigateWithRetries (\<lambda>k. 2 \<le> k)) = Some True
   \<and> navigateWithRetries (\<lambda>k. False)
     = (Some False,
         [LogAttempt 1, LogError 1, LogAttempt 2, LogError 2, LogAttempt 3, LogError 3, LogGiveUp])"
  using retry_policy_three_attempts [of "\<lambda>k. if k < 2 then Throws else PublishStarted" "\<lambda>k. 2 \<le> k"]
    retry_policy_three_attempts [of "\<lambda>k. Throws" "\<lambda>k. False"]
  by (simp add: attempts_def)

section \<open>Properties of the url a tab visits\<close>

lemma startsWith_iff: "startsWith s p \<longleftrightarrow> take (length p) s = p"
  by (induction s p rule: startsWith.induct) auto

lemma startsWith_append: "startsWith (p @ s) p"
  by (simp add: startsWith_iff)

lemma getSubstitution_plain:
  "CHR ''$'' \<notin> set r \<Longrightarrow> getSubstitution matched after r = r"
  by (induction matched after r rule: getSubstitution.induct) auto

lemma matchHost_label:
  assumes "label \<noteq> []" "CHR ''.'' \<notin> set label"
  shows "matchHost (''https://'' @ label @ CHR ''.'' # rest) = Some (''https://'' @ label, CHR ''.'' # rest)"
    and "matchHost (''https://'' @ label) = Some (''https://'' @ label, [])"
proof -
  have all: "\<forall>c \<in> set label. c \<noteq> CHR ''.''" using assms(2) by auto
  have s: "startsWith (''https://'' @ t) ''https://''" for t
    by (rule startsWith_append)
  have t1: "takeWhile (\<lambda>c. c \<noteq> CHR ''.'') (label @ CHR ''.'' # rest) = label"
    using all by (simp add: takeWhile_tail)
  have d1: "dropWhile (\<lambda>c. c \<noteq> CHR ''.'') (label @ CHR ''.'' # rest) = CHR ''.'' # rest"
    using all by (simp add: dropWhile_append3)
  have t2: "takeWhile (\<lambda>c. c \<noteq> CHR ''.'') label = label"
    using all by simp
  have d2: "dropWhile (\<lambda>c. c \<noteq> CHR ''.'') label = []"
    using all by simp
  show "matchHost (''https://'' @ label @ CHR ''.'' # rest) = Some (''https://'' @ label, CHR ''.'' # rest)"
    unfolding matchHost_def using s [of "label @ CHR ''.'' # rest"] assms(1)
    by (simp add: Let_def t1 d1)
  show "matchHost (''https://'' @ label) = Some (''https://'' @ label, [])"
    unfolding matchHost_def using s [of label] assms(1)
    by (simp add: Let_def t2 d2)
qed

lemma matchHost_None:
  "\<not> startsWith task ''https://'' \<Longrightarrow> matchHost task = None"
  "matchHost (''https://'' @ CHR ''.'' # rest) = None"
  "matchHost ''https://'' = None"
  by (simp_all add: matchHost_def)

text \<open>
  Claim C10, as amended. Let the subdomain hold no dollar sign. A url that starts with
  \<^verbatim>\<open>https://\<close> and at least one character other than a dot has that start, up to
  its first dot (or to its end when it has no dot), replaced by \<^verbatim>\<open>https://\<close> and
  the subdomain of the tab; every other url is left as it is. So the page is on the host of
  the tab's group when the stored url is \<^verbatim>\<open>https://\<close>, one label,
  \<^verbatim>\<open>.wodify.com/\<close> and a path. The rewritten url is the one a running tab
  prints and visits for a task it claims that is not the empty string; a tab that is given
  the empty string visits nothing and leaves its loop.
\<close>

theorem rewriteUrl_first_label:
  assumes "CHR ''$'' \<notin> set subdomain"
  shows
    "(label \<noteq> [] \<and> CHR ''.'' \<notin> set label \<longrightarrow>
        rewriteUrl subdomain (''https://'' @ label @ CHR ''.'' # rest)
          = ''https://'' @ subdomain @ CHR ''.'' # rest
      \<and> rewriteUrl subdomain (''https://'' @ label) = ''https://'' @ subdomain
      \<and> onGroupHost subdomain
          (rewriteUrl subdomain (''https://'' @ label @ ''.'' @ BASE_DOMAIN @ ''/'' @ path)))
   \<and> (\<not> startsWith task ''https://'' \<longrightarrow> rewriteUrl subdomain task = task)
   \<and> rewriteUrl subdomain (''https://'' @ CHR ''.'' # rest) = ''https://'' @ CHR ''.'' # rest
   \<and> rewriteUrl subdomain ''https://'' = ''https://''
   \<and> (w \<in> set (running s) \<and> fst w = subdomain \<and> fst (getNextTask (queue s)) = Some task
        \<and> task \<noteq> [] \<longrightarrow>
        (w, Processing (rewriteUrl subdomain task)) \<in> set (trace (runTabs [(w, i)] s)))
   \<and> (w \<in> set (running s) \<and> fst (getNextTask (queue s)) = Some [] \<longrightarrow>
        trace (runTabs [(w, i)] s) = trace s @ [(w, NoTask), (w, TabFinished)]
        \<and> w \<notin> set (running (runTabs [(w, i)] s)))"
proof -
  have plain: "getSubstitution m a (''https://'' @ subdomain) = ''https://'' @ subdomain" for m a
    using assms by (intro getSubstitution_plain) simp
  have r1: "rewriteUrl subdomain (''https://'' @ label @ CHR ''.'' # t)
      = ''https://'' @ subdomain @ CHR ''.'' # t"
    if "label \<noteq> []" "CHR ''.'' \<notin> set label" for t
    unfolding rewriteUrl_def matchHost_label(1) [OF that] using plain by simp
  have r2: "rewriteUrl subdomain (''https://'' @ label) = ''https://'' @ subdomain"
    if "label \<noteq> []" "CHR ''.'' \<notin> set label"
    unfolding rewriteUrl_def matchHost_label(2) [OF that] using plain by simp
  have r3: "onGroupHost subdomain
      (rewriteUrl subdomain (''https://'' @ label @ ''.'' @ BASE_DOMAIN @ ''/'' @ path))"
    if "label \<noteq> []" "CHR ''.'' \<notin> set label"
  proof -
    have "rewriteUrl subdomain (''https://'' @ label @ CHR ''.'' # (BASE_DOMAIN @ ''/'' @ path))
        = ''https://'' @ subdomain @ CHR ''.'' # (BASE_DOMAIN @ ''/'' @ path)"
      by (rule r1 [OF that])
    then have "rewriteUrl subdomain (''https://'' @ label @ ''.'' @ BASE_DOMAIN @ ''/'' @ path)
        = (''https://'' @ subdomain @ ''.'' @ BASE_DOMAIN @ ''/'') @ path"
      by simp
    then show ?thesis
      unfolding onGroupHost_def by (simp only: startsWith_append)
  qed
  have r4: "rewriteUrl subdomain task = task" if "\<not> startsWith task ''https://''"
    unfolding rewriteUrl_def matchHost_None(1) [OF that] by simp
  have r5: "rewriteUrl subdomain (''https://'' @ CHR ''.'' # rest) = ''https://'' @ CHR ''.'' # rest"
    unfolding rewriteUrl_def matchHost_None(2) by simp
  have r6: "rewriteUrl subdomain ''https://'' = ''https://''"
    unfolding rewriteUrl_def matchHost_None(3) by simp
  have r7: "(w, Processing (rewriteUrl subdomain task)) \<in> set (trace (runTabs [(w, i)] s))"
    if "w \<in> set (running s)" "fst w = subdomain" "fst (getNextTask (queue s)) = Some task"
      "task \<noteq> []"
    using that by (cases i) (simp_all add: processTabRound_def split_beta Let_def)
  have r8: "trace (runTabs [(w, i)] s) = trace s @ [(w, NoTask), (w, TabFinished)]
      \<and> w \<notin> set (running (runTabs [(w, i)] s))"
    if "w \<in> set (running s)" "fst (getNextTask (queue s)) = Some []"
    using that by (simp add: processTabRound_def split_beta leaveLoop_def)
  show ?thesis
    using r1 r2 r3 r4 r5 r6 r7 r8 by blast
qed

lemma examplePool_eval:
  "examplePool =
     \<lparr>queue = \<lparr>taskQueue = [''https://devsc.wodify.com/a'', ''https://devsc.wodify.com/b'',
                             ''https://devsc.wodify.com/c''], taskIndex = 0\<rparr>,
      running = [(''dev'', 0), (''dev'', 1), (''dev-coreap'', 0), (''dev-coreap'', 1),
                 (''dev-clientapp'', 0), (''dev-clientapp'', 1), (''dev-coreos'', 0),
                 (''dev-coreos'', 1), (''devsc'', 0), (''devsc'', 1)],
      trace = []\<rparr>"
  by code_simp

text \<open>The url of a scanned module, a url of another scheme, and the first round of a tab.\<close>

theorem rewriteUrl_first_label_witness:
  "CHR ''$'' \<notin> set ''dev-coreap''
   \<and> rewriteUrl ''dev-coreap'' ''https://devsc.wodify.com/ServiceCenter/eSpace_Edit.aspx?eSpaceId=12''
       = ''https://dev-coreap.wodify.com/ServiceCenter/eSpace_Edit.aspx?eSpaceId=12''
   \<and> onGroupHost ''dev-coreap''
        (rewriteUrl ''dev-coreap'' ''https://devsc.wodify.com/ServiceCenter/eSpace_Edit.aspx?eSpaceId=12'')
   \<and> rewriteUrl ''dev-coreap'' ''ftp://devsc.wodify.com/x'' = ''ftp://devsc.wodify.com/x''
   \<and> ((''dev-coreap'', 0), Processing ''https://dev-coreap.wodify.com/a'')
        \<in> set (trace (runTabs [((''dev-coreap'', 0), NotInWarning)] examplePool))"
proof -
  have a: "CHR ''$'' \<notin> set ''dev-coreap''" by simp
  note t1 = rewriteUrl_first_label [OF a, where label = "''devsc''"
      and rest = "''wodify.com/ServiceCenter/eSpace_Edit.aspx?eSpaceId=12''"
      and path = "''ServiceCenter/eSpace_Edit.aspx?eSpaceId=12''"
      and task = "''ftp://devsc.wodify.com/x''"
      and w = "(''dev-coreap'', 0)" and s = examplePool and i = NotInWarning]
  note t2 = rewriteUrl_first_label [OF a, where label = "''devsc''"
      and rest = "''wodify.com/a''" and path = "''a''" and task = "''https://devsc.wodify.com/a''"
      and w = "(''dev-coreap'', 0)" and s = examplePool and i = NotInWarning]
  have g: "fst (getNextTask (queue examplePool)) = Some ''https://devsc.wodify.com/a''"
    by (simp add: examplePool_eval getNextTask_def)
  have r: "(''dev-coreap'', 0) \<in> set (running examplePool)"
    by (simp add: examplePool_eval)
  show ?thesis
    using a t1 t2 g r by (clarsimp simp: BASE_DOMAIN_def)
qed

text \<open>
  Claim C10 as stated fails: the host stored in the record decides the host visited. A
  record on another domain stays on that domain, and a url that does not start with
  \<^verbatim>\<open>https://\<close> is visited as stored.
\<close>

theorem rewriteUrl_keeps_foreign_host:
  "rewriteUrl ''dev-coreap'' ''https://devsc.example.org/ServiceCenter/eSpace_Edit.aspx?eSpaceId=12''
     = ''https://dev-coreap.example.org/ServiceCenter/eSpace_Edit.aspx?eSpaceId=12''
   \<and> \<not> onGroupHost ''dev-coreap''
        (rewriteUrl ''dev-coreap'' ''https://devsc.example.org/ServiceCenter/eSpace_Edit.aspx?eSpaceId=12'')
   \<and> rewriteUrl ''dev-coreap'' ''http://devsc.wodify.com/ServiceCenter/eSpace_Edit.aspx?eSpaceId=12''
     = ''http://devsc.wodify.com/ServiceCenter/eSpace_Edit.aspx?eSpaceId=12''
   \<and> \<not> onGroupHost ''dev-coreap''
        (rewriteUrl ''dev-coreap'' ''http://devsc.wodify.com/ServiceCenter/eSpace_Edit.aspx?eSpaceId=12'')"
  by (simp add: rewriteUrl_def matchHost_def onGroupHost_def BASE_DOMAIN_def)

section \<open>Properties of the layer argument\<close>

lemma letters_distinct: "distinct (lowerLetters @ upperLetters)"
  unfolding lowerLetters_def upperLetters_def by code_simp

lemma letters_length: "length lowerLetters = length upperLetters"
  unfolding lowerLetters_def upperLetters_def by simp

lemma map_of_zip_swap:
  "length xs = length ys \<Longrightarrow> distinct ys \<Longrightarrow> map_of (zip xs ys) x = Some y
     \<Longrightarrow> map_of (zip ys xs) y = Some x"
proof (induction xs ys rule: list_induct2)
  case Nil
  then show ?case by simp
next
  case (Cons a xs b ys)
  show ?case
  proof (cases "x = a")
    case True
    with Cons.prems show ?thesis by simp
  next
    case False
    with Cons.prems have m: "map_of (zip xs ys) x = Some y" by simp
    then have "y \<in> set ys" by (meson map_of_SomeD set_zip_rightD)
    with Cons.prems have "y \<noteq> b" by auto
    with Cons.IH m Cons.prems show ?thesis by simp
  qed
qed

lemma toUpperChar_cases:
  "toUpperChar c = c \<and> c \<notin> set lowerLetters
     \<or> c \<in> set lowerLetters \<and> toUpperChar c \<in> set upperLetters \<and> toLowerChar (toUpperChar c) = c"
proof (cases "map_of (zip lowerLetters upperLetters) c")
  case None
  then have "c \<notin> set lowerLetters"
    using map_fst_zip [OF letters_length] by (metis map_of_eq_None_iff set_map)
  with None show ?thesis by (simp add: toUpperChar_def)
next
  case (Some u)
  then have "(c, u) \<in> set (zip lowerLetters upperLetters)" by (rule map_of_SomeD)
  then have "c \<in> set lowerLetters" "u \<in> set upperLetters"
    by (auto dest: set_zip_leftD set_zip_rightD)
  moreover have "map_of (zip upperLetters lowerLetters) u = Some c"
    using map_of_zip_swap [OF letters_length _ Some] letters_distinct by simp
  ultimately show ?thesis using Some by (simp add: toUpperChar_def toLowerChar_def)
qed

lemma toLowerChar_cases:
  "toLowerChar c = c \<and> c \<notin> set upperLetters
     \<or> c \<in> set upperLetters \<and> toLowerChar c \<in> set lowerLetters \<and> toUpperChar (toLowerChar c) = c"
proof (cases "map_of (zip upperLetters lowerLetters) c")
  case None
  then have "c \<notin> set upperLetters"
    using map_fst_zip [OF letters_length [symmetric]] by (metis map_of_eq_None_iff set_map)
  with None show ?thesis by (simp add: toLowerChar_def)
next
  case (Some l)
  then have "(c, l) \<in> set (zip upperLetters lowerLetters)" by (rule map_of_SomeD)
  then have "c \<in> set upperLetters" "l \<in> set lowerLetters"
    by (auto dest: set_zip_leftD set_zip_rightD)
  moreover have "map_of (zip lowerLetters upperLetters) l = Some c"
    using map_of_zip_swap [OF letters_length [symmetric] _ Some] letters_distinct by simp
  ultimately show ?thesis using Some by (simp add: toUpperChar_def toLowerChar_def)
qed

lemma letters_disjoint: "c \<in> set lowerLetters \<Longrightarrow> c \<notin> set upperLetters"
  using letters_distinct by auto

lemma toUpperChar_idem: "toUpperChar (toUpperChar c) = toUpperChar c"
  using toUpperChar_cases [of c] toUpperChar_cases [of "toUpperChar c"] letters_disjoint
  by metis

lemma toUpperChar_toLowerChar: "toUpperChar (toLowerChar c) = toUpperChar c"
  using toLowerChar_cases [of c] toUpperChar_cases [of c] letters_disjoint
  by metis

lemma comma_no_letter: "CHR '','' \<notin> set lowerLetters" "CHR '','' \<notin> set upperLetters"
  unfolding lowerLetters_def upperLetters_def by simp_all

lemma toUpperChar_comma: "toUpperChar c = CHR '','' \<longleftrightarrow> c = CHR '',''"
  using toUpperChar_cases [of c] toUpperChar_cases [of "CHR '',''"] comma_no_letter by metis

lemma toLowerChar_comma: "toLowerChar c = CHR '','' \<longleftrightarrow> c = CHR '',''"
  using toLowerChar_cases [of c] toLowerChar_cases [of "CHR '',''"] comma_no_letter by metis

lemma space_no_letter: "isWhiteSpace c \<Longrightarrow> c \<notin> set lowerLetters \<and> c \<notin> set upperLetters"
  unfolding lowerLetters_def upperLetters_def isWhiteSpace_def by auto

lemma toUpperChar_space: "isWhiteSpace (toUpperChar c) = isWhiteSpace c"
  using toUpperChar_cases [of c] space_no_letter by metis

lemma toLowerChar_space: "isWhiteSpace (toLowerChar c) = isWhiteSpace c"
  using toLowerChar_cases [of c] space_no_letter by metis

lemma split_str_not_Nil: "split_str sep s \<noteq> []"
  by (induction s) (auto split: list.splits)

lemma split_str_map:
  assumes "\<And>c. f c = sep \<longleftrightarrow> c = sep"
  shows "split_str sep (map f s) = map (map f) (split_str sep s)"
proof (induction s)
  case Nil
  then show ?case by simp
next
  case (Cons c s)
  then show ?case
    using assms [of c] split_str_not_Nil [of sep s]
    by (cases "split_str sep s") simp_all
qed

lemma trim_map:
  assumes "\<And>c. isWhiteSpace (f c) = isWhiteSpace c"
  shows "trim (map f s) = map f (trim s)"
proof -
  have w: "isWhiteSpace \<circ> f = isWhiteSpace" using assms by (simp add: fun_eq_iff)
  have d: "dropWhile isWhiteSpace (map f xs) = map f (dropWhile isWhiteSpace xs)" for xs
    by (simp add: dropWhile_map w)
  show ?thesis
    by (simp add: trim_def d rev_map)
qed

lemma toUpperCase_idem: "toUpperCase (toUpperCase s) = toUpperCase s"
  by (simp add: toUpperCase_def toUpperChar_idem)

lemma toUpperCase_toLowerCase: "toUpperCase (toLowerCase s) = toUpperCase s"
  by (simp add: toUpperCase_def toLowerCase_def toUpperChar_toLowerChar)

lemma layerMap_eq: "layerMap k = (if k \<in> set PROCESSING_HIERARCHY then Some k else None)"
  by (simp add: layerMap_def PROCESSING_HIERARCHY_def toUpperCase_def toUpperChar_def
      lowerLetters_def upperLetters_def)

lemma map_filter_layers:
  "List.map_filter (\<lambda>layer. layerMap (toUpperCase layer)) (map trim ts)
     = filter (\<lambda>k. k \<in> set PROCESSING_HIERARCHY) (map (\<lambda>t. toUpperCase (trim t)) ts)"
  by (induction ts) (simp_all add: List.map_filter_simps layerMap_eq)

lemma parseRequestedLayers_Cons:
  "parseRequestedLayers (a # rest) =
     (let layers = filter (\<lambda>k. k \<in> set PROCESSING_HIERARCHY)
                     (map (\<lambda>t. toUpperCase (trim t)) (split_str CHR '','' a))
      in if layers = [] then (None, [WarnNoValidLayers a, LogAvailableLayers])
         else (Some layers, [LogWillProcess layers]))"
  by (simp add: parseRequestedLayers_def map_filter_layers Let_def)

lemma layers_case_insensitive:
  "map (\<lambda>t. toUpperCase (trim t)) (split_str CHR '','' (toUpperCase a))
     = map (\<lambda>t. toUpperCase (trim t)) (split_str CHR '','' a)"
  "map (\<lambda>t. toUpperCase (trim t)) (split_str CHR '','' (toLowerCase a))
     = map (\<lambda>t. toUpperCase (trim t)) (split_str CHR '','' a)"
proof -
  have u: "toUpperCase (trim (map toUpperChar t)) = toUpperCase (trim t)" for t
    using trim_map [of toUpperChar t] toUpperCase_idem [of "trim t"]
    by (simp add: toUpperChar_space toUpperCase_def)
  have l: "toUpperCase (trim (map toLowerChar t)) = toUpperCase (trim t)" for t
    using trim_map [of toLowerChar t] toUpperCase_toLowerCase [of "trim t"]
    by (simp add: toLowerChar_space toUpperCase_def toLowerCase_def)
  show "map (\<lambda>t. toUpperCase (trim t)) (split_str CHR '','' (toUpperCase a))
     = map (\<lambda>t. toUpperCase (trim t)) (split_str CHR '','' a)"
    by (simp add: toUpperCase_def [of a] split_str_map toUpperChar_comma comp_def u)
  show "map (\<lambda>t. toUpperCase (trim t)) (split_str CHR '','' (toLowerCase a))
     = map (\<lambda>t. toUpperCase (trim t)) (split_str CHR '','' a)"
    by (simp add: toLowerCase_def [of a] split_str_map toLowerChar_comma comp_def l)
qed

lemma hierarchy_codes_accepted:
  "list_all
     (\<lambda>L. filter (\<lambda>k. k \<in> set PROCESSING_HIERARCHY)
            (map (\<lambda>t. toUpperCase (trim t)) (split_str CHR '','' L)) = [L]
        \<and> filter (\<lambda>k. k \<in> set PROCESSING_HIERARCHY)
            (map (\<lambda>t. toUpperCase (trim t)) (split_str CHR '','' (toLowerCase L))) = [L])
     PROCESSING_HIERARCHY"
  by code_simp

text \<open>
  Claim C8. The layer argument, in the scanner and in the publisher alike (one function
  text): with no argument the result is \<^verbatim>\<open>null\<close> and nothing is printed; with an
  empty argument, or one whose pieces are all outside the hierarchy, the result is
  \<^verbatim>\<open>null\<close> and the warning is printed; with a piece that, trimmed and in upper
  case, is a code of the hierarchy, the result is the list of those pieces, trimmed and in
  upper case, in their order; every code of the hierarchy is accepted as it is and in lower
  case; the argument with its ASCII letters in upper case or in lower case names the same
  layers as the argument itself; and with \<^verbatim>\<open>null\<close> the filter returns the modules as
  they are.
\<close>

theorem parseRequestedLayers_contract:
  "parseRequestedLayers [] = (None, [])
   \<and> parseRequestedLayers ([] # rest) = (None, [WarnNoValidLayers [], LogAvailableLayers])
   \<and> ((\<forall>t \<in> set (split_str CHR '','' a). toUpperCase (trim t) \<notin> set PROCESSING_HIERARCHY) \<longrightarrow>
        parseRequestedLayers (a # rest) = (None, [WarnNoValidLayers a, LogAvailableLayers]))
   \<and> ((\<exists>t \<in> set (split_str CHR '','' a). toUpperCase (trim t) \<in> set PROCESSING_HIERARCHY) \<longrightarrow>
        parseRequestedLayers (a # rest) =
          (Some (filter (\<lambda>k. k \<in> set PROCESSING_HIERARCHY)
                   (map (\<lambda>t. toUpperCase (trim t)) (split_str CHR '','' a))),
           [LogWillProcess (filter (\<lambda>k. k \<in> set PROCESSING_HIERARCHY)
                   (map (\<lambda>t. toUpperCase (trim t)) (split_str CHR '','' a)))]))
   \<and> (\<forall>L \<in> set PROCESSING_HIERARCHY.
        fst (parseRequestedLayers (L # rest)) = Some [L]
        \<and> fst (parseRequestedLayers (toLowerCase L # rest)) = Some [L])
   \<and> fst (parseRequestedLayers (toUpperCase a # rest)) = fst (parseRequestedLayers (a # rest))
   \<and> fst (parseRequestedLayers (toLowerCase a # rest)) = fst (parseRequestedLayers (a # rest))
   \<and> (fst (parseRequestedLayers args) = None \<longrightarrow>
        filterModulesByRequestedLayers modules (fst (parseRequestedLayers args)) = modules)"
proof -
  have absent: "parseRequestedLayers [] = (None, [])"
    by (simp add: parseRequestedLayers_def)
  have none: "parseRequestedLayers (a # rest) = (None, [WarnNoValidLayers a, LogAvailableLayers])"
    if "\<forall>t \<in> set (split_str CHR '','' a). toUpperCase (trim t) \<notin> set PROCESSING_HIERARCHY"
    for a
  proof -
    have "filter (\<lambda>k. k \<in> set PROCESSING_HIERARCHY)
            (map (\<lambda>t. toUpperCase (trim t)) (split_str CHR '','' a)) = []"
      using that by (simp add: filter_empty_conv)
    then show ?thesis by (simp add: parseRequestedLayers_Cons)
  qed
  have some: "parseRequestedLayers (a # rest) =
          (Some (filter (\<lambda>k. k \<in> set PROCESSING_HIERARCHY)
                   (map (\<lambda>t. toUpperCase (trim t)) (split_str CHR '','' a))),
           [LogWillProcess (filter (\<lambda>k. k \<in> set PROCESSING_HIERARCHY)
                   (map (\<lambda>t. toUpperCase (trim t)) (split_str CHR '','' a)))])"
    if "\<exists>t \<in> set (split_str CHR '','' a). toUpperCase (trim t) \<in> set PROCESSING_HIERARCHY"
  proof -
    have "filter (\<lambda>k. k \<in> set PROCESSING_HIERARCHY)
            (map (\<lambda>t. toUpperCase (trim t)) (split_str CHR '','' a)) \<noteq> []"
      using that by (auto simp: filter_empty_conv)
    then show ?thesis by (simp add: parseRequestedLayers_Cons Let_def)
  qed
  have empty: "parseRequestedLayers ([] # rest) = (None, [WarnNoValidLayers [], LogAvailableLayers])"
    by (rule none) (simp add: trim_def toUpperCase_def PROCESSING_HIERARCHY_def)
  have codes: "\<forall>L \<in> set PROCESSING_HIERARCHY.
        fst (parseRequestedLayers (L # rest)) = Some [L]
        \<and> fst (parseRequestedLayers (toLowerCase L # rest)) = Some [L]"
    using hierarchy_codes_accepted
    by (simp add: list_all_iff parseRequestedLayers_Cons Let_def)
  have up: "fst (parseRequestedLayers (toUpperCase a # rest)) = fst (parseRequestedLayers (a # rest))"
    by (simp add: parseRequestedLayers_Cons layers_case_insensitive Let_def)
  have low: "fst (parseRequestedLayers (toLowerCase a # rest)) = fst (parseRequestedLayers (a # rest))"
    by (simp add: parseRequestedLayers_Cons layers_case_insensitive Let_def)
  have nofilter: "filterModulesByRequestedLayers modules (fst (parseRequestedLayers args)) = modules"
    if "fst (parseRequestedLayers args) = None"
    using that by (simp add: filterModulesByRequestedLayers_def)
  show ?thesis
    using absent none [of a] some empty codes up low nofilter by blast
qed

text \<open>
  An argument of unknown codes; one in mixed case with a no-break space in front and an
  unknown code at its end; a code in lower case; and the empty argument.
\<close>

theorem parseRequestedLayers_contract_witness:
  "list_all (\<lambda>t. toUpperCase (trim t) \<notin> set PROCESSING_HIERARCHY)
      (split_str CHR '','' ''foo, bar'')
   \<and> parseRequestedLayers [''foo, bar''] = (None, [WarnNoValidLayers ''foo, bar'', LogAvailableLayers])
   \<and> toUpperCase (trim (CHR 0xA0 # ''os'')) \<in> set PROCESSING_HIERARCHY
   \<and> parseRequestedLayers [CHR 0xA0 # ''os, Ui,xx'']
       = (Some [''OS'', ''UI''], [LogWillProcess [''OS'', ''UI'']])
   \<and> ''SBL'' \<in> set PROCESSING_HIERARCHY
   \<and> fst (parseRequestedLayers [toLowerCase ''SBL'']) = Some [''SBL'']
   \<and> fst (parseRequestedLayers [[]]) = None
   \<and> filterModulesByRequestedLayers exampleSnapshot (fst (parseRequestedLayers [[]])) = exampleSnapshot"
proof -
  have h: "\<forall>t \<in> set (split_str CHR '','' ''foo, bar''). toUpperCase (trim t) \<notin> set PROCESSING_HIERARCHY"
    by code_simp
  have o: "toUpperCase (trim (CHR 0xA0 # ''os'')) \<in> set PROCESSING_HIERARCHY"
    by code_simp
  have os: "CHR 0xA0 # ''os'' \<in> set (split_str CHR '','' (CHR 0xA0 # ''os, Ui,xx''))"
    by code_simp
  have f: "filter (\<lambda>k. k \<in> set PROCESSING_HIERARCHY)
             (map (\<lambda>t. toUpperCase (trim t)) (split_str CHR '','' (CHR 0xA0 # ''os, Ui,xx'')))
           = [''OS'', ''UI'']"
    by code_simp
  have s: "''SBL'' \<in> set PROCESSING_HIERARCHY"
    by (simp add: PROCESSING_HIERARCHY_def)
  note t1 = parseRequestedLayers_contract [where a = "''foo, bar''" and rest = "[]"
      and args = "[[]]" and modules = exampleSnapshot]
  note t2 = parseRequestedLayers_contract [where a = "CHR 0xA0 # ''os, Ui,xx''" and rest = "[]"
      and args = "[[]]" and modules = exampleSnapshot]
  have a: "parseRequestedLayers [''foo, bar''] = (None, [WarnNoValidLayers ''foo, bar'', LogAvailableLayers])"
    using t1 h by blast
  have b: "parseRequestedLayers [CHR 0xA0 # ''os, Ui,xx'']
       = (Some [''OS'', ''UI''], [LogWillProcess [''OS'', ''UI'']])"
    using t2 o os unfolding f by blast
  have c: "fst (parseRequestedLayers [toLowerCase ''SBL'']) = Some [''SBL'']"
    using t1 s by blast
  have e: "fst (parseRequestedLayers [[]]) = None"
    using t1 by simp
  have n: "filterModulesByRequestedLayers exampleSnapshot (fst (parseRequestedLayers [[]])) = exampleSnapshot"
    using t1 e by blast
  show ?thesis
    using h o s a b c e n by (simp add: list_all_iff del: split_str.simps)
qed

section \<open>Properties of the scanner\<close>

lemma includes_str_infix: "includes_str (u @ sub @ v) sub"
proof (induction u)
  case Nil
  have s: "startsWith (sub @ v) sub" by (rule startsWith_append)
  show ?case
  proof (cases "sub @ v")
    case Nil
    then show ?thesis by simp
  next
    case (Cons a l)
    with s show ?thesis by simp
  qed
next
  case (Cons c u)
  then show ?case by simp
qed

lemma sandbox_any_case:
  "toLowerCase w = ''sandbox'' \<Longrightarrow> includes_str (toLowerCase (u @ w @ v)) ''sandbox''"
  using includes_str_infix [of "toLowerCase u" "''sandbox''" "toLowerCase v"]
  by (simp add: toLowerCase_def)

lemma rowRecord_Some:
  assumes "rowRecord r = Some m"
  shows "warningIcon r = Some True" "moduleLink r = Some (url m)" "moduleName r = Some (name m)"
    "\<not> includes_str (toLowerCase (name m)) ''sandbox''"
    "suffix m \<in> set PROCESSING_HIERARCHY"
  using assms
  by (auto simp: rowRecord_def Let_def PROCESSING_HIERARCHY_def split: option.splits bool.splits if_splits)

lemma rowRecord_sandbox:
  "moduleName r = Some nm \<Longrightarrow> includes_str (toLowerCase nm) ''sandbox'' \<Longrightarrow> rowRecord r = None"
  by (simp add: rowRecord_def split: option.splits bool.splits)

lemma Map_set_new: "\<not> Map_has m k \<Longrightarrow> Map_set m k v = m @ [(k, v)]"
  by (induction m) (auto simp: Map_has_def)

lemma captured_append: "captured (rs @ rs') = captured rs @ captured rs'"
  by (simp add: captured_def List.map_filter_def)

lemma captured_snoc:
  "captured (rs @ [r]) = captured rs @ (case rowRecord r of None \<Rightarrow> [] | Some m \<Rightarrow> [m])"
  by (simp add: captured_def List.map_filter_def split: option.splits)

lemma keyed_mono: "keyed rs modules \<Longrightarrow> keyed (rs @ rs') modules"
  by (auto simp: keyed_def captured_append)

lemma keyed_scanRow: "keyed rs modules \<Longrightarrow> keyed (rs @ [r]) (scanRow modules r)"
  by (auto simp: keyed_def scanRow_def Map_set_new Map_has_def captured_snoc split: option.splits)

lemma find_append:
  "find P (xs @ ys) = (case find P xs of None \<Rightarrow> find P ys | Some x \<Rightarrow> Some x)"
  by (induction xs) auto

lemma keyed_find:
  "keyed rs modules \<Longrightarrow> Map_has modules k \<longleftrightarrow> find (\<lambda>m. url m = k) (Map_values modules) \<noteq> None"
  by (force simp: keyed_def Map_has_def Map_values_def find_None_iff)

lemma find_scanRow:
  assumes "keyed rs modules"
  shows "find (\<lambda>m. url m = k) (Map_values (scanRow modules r)) =
           (case find (\<lambda>m. url m = k) (Map_values modules) of
              Some m \<Rightarrow> Some m
            | None \<Rightarrow> find (\<lambda>m. url m = k) (captured [r]))"
proof (cases "rowRecord r")
  case None
  then show ?thesis
    by (simp add: scanRow_def captured_def List.map_filter_def split: option.splits)
next
  case (Some m)
  show ?thesis
  proof (cases "Map_has modules (url m)")
    case True
    then have "find (\<lambda>c. url c = url m) (Map_values modules) \<noteq> None"
      using keyed_find [OF assms] by simp
    then show ?thesis
      using Some True
      by (auto simp: scanRow_def captured_def List.map_filter_def split: option.splits)
  next
    case False
    then show ?thesis
      using Some
      by (simp add: scanRow_def Map_set_new Map_values_def find_append captured_def
          List.map_filter_def split: option.splits)
  qed
qed

lemma foldl_scanRow:
  "keyed rs0 modules \<Longrightarrow>
   keyed (rs0 @ rs) (foldl scanRow modules rs)
   \<and> find (\<lambda>m. url m = k) (Map_values (foldl scanRow modules rs)) =
       (case find (\<lambda>m. url m = k) (Map_values modules) of
          Some m \<Rightarrow> Some m
        | None \<Rightarrow> find (\<lambda>m. url m = k) (captured rs))"
proof (induction rs arbitrary: rs0 modules)
  case Nil
  then show ?case by (simp add: captured_def List.map_filter_def split: option.splits)
next
  case (Cons r rs)
  have k: "keyed (rs0 @ [r]) (scanRow modules r)"
    by (rule keyed_scanRow [OF Cons.prems])
  from Cons.IH [OF k] find_scanRow [OF Cons.prems, of k r]
  show ?case
    using captured_append [of "[r]" rs]
    by (auto simp: find_append split: option.splits)
qed

lemma keyed_Nil: "keyed [] []"
  by (simp add: keyed_def)

lemma scrapeLoop_Returned:
  "scrapeLoop ps modules = Returned modules' \<Longrightarrow> modules' = foldl scanRow modules (loopRows ps)"
proof (induction ps arbitrary: modules)
  case Nil
  then show ?case by simp
next
  case (Cons p ps)
  then show ?case
    by (auto simp: Let_def split: option.splits bool.splits next_button.splits if_splits)
qed

lemma scrape_Returned:
  assumes "scrapeModulesWithWarnings ps secondLook = Returned ms"
  shows "ms = Map_values (foldl scanRow [] (rowsRead ps secondLook))"
proof -
  from assms obtain modules where l: "scrapeLoop ps [] = Returned modules"
    by (auto simp: scrapeModulesWithWarnings_def split: ending.splits)
  then have m: "modules = foldl scanRow [] (loopRows ps)"
    by (rule scrapeLoop_Returned)
  show ?thesis
    using assms l m
    by (auto simp: scrapeModulesWithWarnings_def rowsRead_def split: option.splits if_splits)
qed

lemma captured_not_sandbox:
  "m \<in> set (captured rs) \<Longrightarrow> \<not> includes_str (toLowerCase (name m)) ''sandbox''"
  by (auto simp: captured_def List.map_filter_def dest: rowRecord_Some(4))

lemma scrape_captured:
  assumes "scrapeModulesWithWarnings ps secondLook = Returned ms"
  shows "set ms \<subseteq> set (captured (rowsRead ps secondLook))" and "distinct (map url ms)"
    and "find (\<lambda>m. url m = k) ms = find (\<lambda>m. url m = k) (captured (rowsRead ps secondLook))"
proof -
  let ?rs = "rowsRead ps secondLook"
  have ms: "ms = Map_values (foldl scanRow [] ?rs)"
    by (rule scrape_Returned [OF assms])
  have k: "keyed ([] @ ?rs) (foldl scanRow [] ?rs)"
    and f: "find (\<lambda>m. url m = k) (Map_values (foldl scanRow [] ?rs)) = find (\<lambda>m. url m = k) (captured ?rs)"
    using foldl_scanRow [OF keyed_Nil, of ?rs k] by (simp_all add: Map_values_def)
  show "set ms \<subseteq> set (captured ?rs)"
    using k by (auto simp: ms keyed_def Map_values_def)
  have "map url (map snd (foldl scanRow [] ?rs)) = map fst (foldl scanRow [] ?rs)"
    using k by (auto simp: keyed_def)
  moreover have "distinct (map fst (foldl scanRow [] ?rs))"
    using k by (simp add: keyed_def)
  ultimately show "distinct (map url ms)"
    by (simp only: ms Map_values_def)
  show "find (\<lambda>m. url m = k) ms = find (\<lambda>m. url m = k) (captured ?rs)"
    using f by (simp add: ms)
qed

lemma mset_insertBy: "mset (insertBy cmp x ys) = add_mset x (mset ys)"
  by (induction ys) auto

lemma mset_Array_sort: "mset (Array_sort cmp xs) = mset xs"
  by (induction xs) (simp_all add: Array_sort_def mset_insertBy)

lemma set_Array_sort: "set (Array_sort cmp xs) = set xs"
  by (metis mset_Array_sort set_mset_mset)

lemma distinct_map_Array_sort: "distinct (map f (Array_sort cmp xs)) = distinct (map f xs)"
proof -
  have "mset (map f (Array_sort cmp xs)) = mset (map f xs)"
    by (simp only: mset_map mset_Array_sort)
  then show ?thesis by (rule mset_eq_imp_distinct_iff)
qed

lemma set_filterModules: "set (filterModulesByRequestedLayers ms rl) \<subseteq> set ms"
  by (auto simp: filterModulesByRequestedLayers_def split: option.splits)

lemma distinct_filterModules:
  "distinct (map url ms) \<Longrightarrow> distinct (map url (filterModulesByRequestedLayers ms rl))"
  by (auto simp: filterModulesByRequestedLayers_def distinct_map_filter split: option.splits)

lemma snapshot_Some:
  assumes "snapshot (scanModules lc rl i) = Some ss"
  shows "\<exists>ms. scrapeModulesWithWarnings (pages i) (recheck i) = Returned ms
            \<and> ss = filterModulesByRequestedLayers (sortModulesByHierarchy lc ms) rl"
  using assms
  by (auto simp: scanModules_def scanCatch_def Let_def split: if_splits ending.splits)

lemma find_distinct:
  "distinct (map f xs) \<Longrightarrow> x \<in> set xs \<Longrightarrow> find (\<lambda>c. f c = f x) xs = Some x"
  by (induction xs) (auto simp: image_iff)

lemma exampleScan_snapshot:
  "snapshot (scanModules localeCompare None exampleScan) =
     Some [\<lparr>url = ''https://devsc.wodify.com/a'', name = ''X_OS'', suffix = ''OS''\<rparr>,
           \<lparr>url = ''https://devsc.wodify.com/b'', name = ''Y_UI'', suffix = ''UI''\<rparr>]"
  by code_simp

lemma exampleScan_captured:
  "captured (rowsRead (pages exampleScan) (recheck exampleScan)) =
     [\<lparr>url = ''https://devsc.wodify.com/a'', name = ''X_OS'', suffix = ''OS''\<rparr>,
      \<lparr>url = ''https://devsc.wodify.com/b'', name = ''Y_UI'', suffix = ''UI''\<rparr>,
      \<lparr>url = ''https://devsc.wodify.com/a'', name = ''X_OS_dup'', suffix = ''UI''\<rparr>]"
  by code_simp

text \<open>
  Claim C9. Let a name contain \<^verbatim>\<open>sandbox\<close> in any letter case (a part \<open>w\<close> of it
  is \<^verbatim>\<open>sandbox\<close> in lower case). A row with that name yields no record and leaves
  the map as it is, whatever else the row carries, the warning icon included; no record of
  what \<^verbatim>\<open>scrapeModulesWithWarnings\<close> returns has that name, and none of the
  snapshot that \<^verbatim>\<open>scanModules\<close> writes.
\<close>

theorem sandbox_modules_excluded:
  assumes "toLowerCase w = ''sandbox''"
  shows "(moduleName r = Some (u @ w @ v) \<longrightarrow> rowRecord r = None \<and> scanRow modules r = modules)
       \<and> (scrapeModulesWithWarnings ps secondLook = Returned ms \<longrightarrow> u @ w @ v \<notin> set (map name ms))
       \<and> (snapshot (scanModules lc requestedLayers i) = Some ss \<longrightarrow> u @ w @ v \<notin> set (map name ss))"
proof -
  have sb: "includes_str (toLowerCase (u @ w @ v)) ''sandbox''"
    by (rule sandbox_any_case [OF assms])
  have row: "rowRecord r = None \<and> scanRow modules r = modules" if "moduleName r = Some (u @ w @ v)"
    using rowRecord_sandbox [OF that sb] by (simp add: scanRow_def)
  have scr: "u @ w @ v \<notin> set (map name ms')"
    if "scrapeModulesWithWarnings ps' sl = Returned ms'" for ps' sl ms'
    using scrape_captured(1) [OF that] captured_not_sandbox sb by auto
  have snap: "u @ w @ v \<notin> set (map name ss)"
    if "snapshot (scanModules lc requestedLayers i) = Some ss"
  proof -
    from snapshot_Some [OF that] obtain ms' where
      r: "scrapeModulesWithWarnings (pages i) (recheck i) = Returned ms'"
      and s: "ss = filterModulesByRequestedLayers (sortModulesByHierarchy lc ms') requestedLayers"
      by blast
    have "set ss \<subseteq> set ms'"
      using set_filterModules [of "sortModulesByHierarchy lc ms'" requestedLayers]
      by (simp add: s sortModulesByHierarchy_def set_Array_sort)
    then show ?thesis using scr [OF r] by auto
  qed
  show ?thesis using row scr snap by blast
qed

text \<open>The third row of the example scan: warning icon, name \<^verbatim>\<open>My_SandBox_CS\<close>.\<close>

theorem sandbox_modules_excluded_witness:
  "toLowerCase ''SandBox'' = ''sandbox''
   \<and> warningIcon (exampleRows ! 2) = Some True
   \<and> moduleName (exampleRows ! 2) = Some (''My_'' @ ''SandBox'' @ ''_CS'')
   \<and> rowRecord (exampleRows ! 2) = None
   \<and> snapshot (scanModules localeCompare None exampleScan) =
       Some [\<lparr>url = ''https://devsc.wodify.com/a'', name = ''X_OS'', suffix = ''OS''\<rparr>,
             \<lparr>url = ''https://devsc.wodify.com/b'', name = ''Y_UI'', suffix = ''UI''\<rparr>]
   \<and> ''My_'' @ ''SandBox'' @ ''_CS'' \<notin> set (map name
        [\<lparr>url = ''https://devsc.wodify.com/a'', name = ''X_OS'', suffix = ''OS''\<rparr>,
         \<lparr>url = ''https://devsc.wodify.com/b'', name = ''Y_UI'', suffix = ''UI''\<rparr>])"
proof -
  have h: "toLowerCase ''SandBox'' = ''sandbox''"
    by code_simp
  have n: "moduleName (exampleRows ! 2) = Some (''My_'' @ ''SandBox'' @ ''_CS'')"
    and w: "warningIcon (exampleRows ! 2) = Some True"
    by (simp_all add: exampleRows_def)
  show ?thesis
    using h n w exampleScan_snapshot
      sandbox_modules_excluded [OF h, where u = "''My_''" and v = "''_CS''"
        and r = "exampleRows ! 2" and lc = localeCompare and requestedLayers = None
        and i = exampleScan]
    by blast
qed

lemma find_same_set:
  assumes "distinct (map f xs)" "distinct (map f ys)" "set xs = set ys"
  shows "find (\<lambda>m. f m = k) xs = find (\<lambda>m. f m = k) ys"
proof (cases "find (\<lambda>m. f m = k) xs")
  case None
  then have "\<forall>x \<in> set ys. f x \<noteq> k"
    using assms(3) by (auto simp: find_None_iff)
  then have "find (\<lambda>m. f m = k) ys = None"
    by (simp add: find_None_iff)
  with None show ?thesis by simp
next
  case (Some x)
  then have x: "x \<in> set xs" "f x = k"
    by (auto simp: find_Some_iff)
  then have "x \<in> set ys" using assms(3) by simp
  from find_distinct [OF assms(2) this] x(2) Some show ?thesis by simp
qed

lemma find_filter_distinct:
  assumes "distinct (map f xs)"
  shows "find (\<lambda>m. f m = k) (filter P xs) =
           (case find (\<lambda>m. f m = k) xs of
              None \<Rightarrow> None
            | Some m \<Rightarrow> if P m then Some m else None)"
proof (cases "find (\<lambda>m. f m = k) xs")
  case None
  then have "find (\<lambda>m. f m = k) (filter P xs) = None"
    by (auto simp: find_None_iff)
  with None show ?thesis by simp
next
  case (Some x)
  then have x: "x \<in> set xs" "f x = k"
    by (auto simp: find_Some_iff)
  have inj: "inj_on f (set xs)"
    using assms by (simp add: distinct_map)
  show ?thesis
  proof (cases "P x")
    case True
    have "distinct (map f (filter P xs))"
      using assms by (rule distinct_map_filter)
    from find_distinct [OF this, of x] True x
    show ?thesis using Some by simp
  next
    case False
    have "y \<noteq> x \<and> f y \<noteq> k" if "y \<in> set (filter P xs)" for y
    proof -
      from that False have "y \<noteq> x" "y \<in> set xs" by auto
      with inj x show ?thesis by (auto dest: inj_onD)
    qed
    then have "find (\<lambda>m. f m = k) (filter P xs) = None"
      by (auto simp: find_None_iff)
    with Some False show ?thesis by simp
  qed
qed

lemma count_distinct:
  "distinct (map f xs) \<Longrightarrow>
   length (filter (\<lambda>m. f m = k) xs) = (case find (\<lambda>m. f m = k) xs of None \<Rightarrow> 0 | Some m \<Rightarrow> 1)"
proof (induction xs)
  case Nil
  then show ?case by simp
next
  case (Cons x xs)
  show ?case
  proof (cases "f x = k")
    case True
    with Cons.prems have "k \<notin> f ` set xs" by simp
    then have "\<forall>y \<in> set xs. f y \<noteq> k" by blast
    then have "filter (\<lambda>m. f m = k) xs = []" by (simp add: filter_empty_conv)
    with True show ?thesis by simp
  next
    case False
    with Cons show ?thesis by simp
  qed
qed

lemma filterModules_filter:
  "filterModulesByRequestedLayers ms rl =
     filter (\<lambda>m. case rl of None \<Rightarrow> True | Some layers \<Rightarrow> suffix m \<in> set layers) ms"
  by (simp add: filterModulesByRequestedLayers_def split: option.splits)

text \<open>
  Claim C7, as amended. In what \<^verbatim>\<open>scrapeModulesWithWarnings\<close> returns no url occurs
  twice, the record of a url is the first one captured for it (so a url captured again,
  under any name, changes nothing), and a url has one record if it was captured and none
  otherwise. In every snapshot that \<^verbatim>\<open>scanModules\<close> writes no url occurs twice; the
  record of a url is the first one captured for it, when no layers are requested or the
  suffix of that record is among the requested layers, and the url has no record otherwise;
  and the url has one record or none accordingly.
\<close>

theorem snapshot_url_unique_first_seen:
  "(scrapeModulesWithWarnings ps secondLook = Returned ms \<longrightarrow>
      distinct (map url ms)
      \<and> find (\<lambda>m. url m = k) ms = find (\<lambda>m. url m = k) (captured (rowsRead ps secondLook))
      \<and> length (filter (\<lambda>m. url m = k) ms)
          = (if k \<in> set (map url (captured (rowsRead ps secondLook))) then 1 else 0))
   \<and> (snapshot (scanModules lc requestedLayers i) = Some ss \<longrightarrow>
      distinct (map url ss)
      \<and> find (\<lambda>m. url m = k) ss =
          (case find (\<lambda>m. url m = k) (captured (rowsRead (pages i) (recheck i))) of
             None \<Rightarrow> None
           | Some m \<Rightarrow>
               (case requestedLayers of
                  None \<Rightarrow> Some m
                | Some layers \<Rightarrow> if suffix m \<in> set layers then Some m else None))
      \<and> length (filter (\<lambda>m. url m = k) ss) =
          (case find (\<lambda>m. url m = k) (captured (rowsRead (pages i) (recheck i))) of
             None \<Rightarrow> 0
           | Some m \<Rightarrow>
               (case requestedLayers of
                  None \<Rightarrow> 1
                | Some layers \<Rightarrow> if suffix m \<in> set layers then 1 else 0)))"
proof -
  have scr: "distinct (map url ms')
      \<and> find (\<lambda>m. url m = k) ms' = find (\<lambda>m. url m = k) (captured (rowsRead ps' sl))
      \<and> length (filter (\<lambda>m. url m = k) ms')
          = (if k \<in> set (map url (captured (rowsRead ps' sl))) then 1 else 0)"
    if r: "scrapeModulesWithWarnings ps' sl = Returned ms'" for ps' sl ms'
  proof -
    have d: "distinct (map url ms')" by (rule scrape_captured(2) [OF r])
    have f: "find (\<lambda>m. url m = k) ms' = find (\<lambda>m. url m = k) (captured (rowsRead ps' sl))"
      by (rule scrape_captured(3) [OF r])
    have "length (filter (\<lambda>m. url m = k) ms')
        = (case find (\<lambda>m. url m = k) (captured (rowsRead ps' sl)) of None \<Rightarrow> 0 | Some m \<Rightarrow> 1)"
      using count_distinct [OF d, of k] f by simp
    also have "\<dots> = (if k \<in> set (map url (captured (rowsRead ps' sl))) then 1 else 0)"
    proof (cases "find (\<lambda>m. url m = k) (captured (rowsRead ps' sl))")
      case None
      then have "k \<notin> set (map url (captured (rowsRead ps' sl)))"
        by (auto simp: find_None_iff)
      with None show ?thesis by simp
    next
      case (Some m)
      then have "k \<in> set (map url (captured (rowsRead ps' sl)))"
        by (auto simp: find_Some_iff)
      with Some show ?thesis by simp
    qed
    finally show ?thesis using d f by blast
  qed
  have snap: "distinct (map url ss)
      \<and> find (\<lambda>m. url m = k) ss =
          (case find (\<lambda>m. url m = k) (captured (rowsRead (pages i) (recheck i))) of
             None \<Rightarrow> None
           | Some m \<Rightarrow>
               (case requestedLayers of
                  None \<Rightarrow> Some m
                | Some layers \<Rightarrow> if suffix m \<in> set layers then Some m else None))
      \<and> length (filter (\<lambda>m. url m = k) ss) =
          (case find (\<lambda>m. url m = k) (captured (rowsRead (pages i) (recheck i))) of
             None \<Rightarrow> 0
           | Some m \<Rightarrow>
               (case requestedLayers of
                  None \<Rightarrow> 1
                | Some layers \<Rightarrow> if suffix m \<in> set layers then 1 else 0))"
    if "snapshot (scanModules lc requestedLayers i) = Some ss"
  proof -
    from snapshot_Some [OF that] obtain ms' where
      r: "scrapeModulesWithWarnings (pages i) (recheck i) = Returned ms'"
      and s: "ss = filterModulesByRequestedLayers (sortModulesByHierarchy lc ms') requestedLayers"
      by blast
    let ?sorted = "sortModulesByHierarchy lc ms'"
    let ?first = "find (\<lambda>m. url m = k) (captured (rowsRead (pages i) (recheck i)))"
    have d: "distinct (map url ms')" by (rule scrape_captured(2) [OF r])
    have ds: "distinct (map url ?sorted)"
      by (simp add: sortModulesByHierarchy_def distinct_map_Array_sort d)
    have dss: "distinct (map url ss)"
      unfolding s by (rule distinct_filterModules [OF ds])
    have "find (\<lambda>m. url m = k) ?sorted = find (\<lambda>m. url m = k) ms'"
      by (rule find_same_set [OF ds d]) (simp add: sortModulesByHierarchy_def set_Array_sort)
    then have fs: "find (\<lambda>m. url m = k) ?sorted = ?first"
      using scrape_captured(3) [OF r, of k] by simp
    have f: "find (\<lambda>m. url m = k) ss =
          (case ?first of
             None \<Rightarrow> None
           | Some m \<Rightarrow>
               (case requestedLayers of
                  None \<Rightarrow> Some m
                | Some layers \<Rightarrow> if suffix m \<in> set layers then Some m else None))"
      unfolding s filterModules_filter find_filter_distinct [OF ds] fs
      by (simp split: option.splits)
    have "length (filter (\<lambda>m. url m = k) ss)
        = (case find (\<lambda>m. url m = k) ss of None \<Rightarrow> 0 | Some m \<Rightarrow> 1)"
      by (rule count_distinct [OF dss])
    also have "\<dots> =
          (case ?first of
             None \<Rightarrow> 0
           | Some m \<Rightarrow>
               (case requestedLayers of
                  None \<Rightarrow> 1
                | Some layers \<Rightarrow> if suffix m \<in> set layers then 1 else 0))"
      unfolding f by (simp split: option.splits)
    finally show ?thesis using dss f by blast
  qed
  show ?thesis
    using scr [of ps secondLook ms] snap by blast
qed

text \<open>
  The example scan (scenario A of the spec, with a sandbox row added) with no layers
  requested: the url \<^verbatim>\<open>a\<close> is captured twice and the snapshot holds the first
  record, once.
\<close>

theorem snapshot_url_unique_first_seen_witness:
  "snapshot (scanModules localeCompare None exampleScan) =
       Some [\<lparr>url = ''https://devsc.wodify.com/a'', name = ''X_OS'', suffix = ''OS''\<rparr>,
             \<lparr>url = ''https://devsc.wodify.com/b'', name = ''Y_UI'', suffix = ''UI''\<rparr>]
   \<and> map url (captured (rowsRead (pages exampleScan) (recheck exampleScan))) =
       [''https://devsc.wodify.com/a'', ''https://devsc.wodify.com/b'', ''https://devsc.wodify.com/a'']
   \<and> distinct (map url
        [\<lparr>url = ''https://devsc.wodify.com/a'', name = ''X_OS'', suffix = ''OS''\<rparr>,
         \<lparr>url = ''https://devsc.wodify.com/b'', name = ''Y_UI'', suffix = ''UI''\<rparr>])
   \<and> find (\<lambda>m. url m = ''https://devsc.wodify.com/a'')
        [\<lparr>url = ''https://devsc.wodify.com/a'', name = ''X_OS'', suffix = ''OS''\<rparr>,
         \<lparr>url = ''https://devsc.wodify.com/b'', name = ''Y_UI'', suffix = ''UI''\<rparr>]
       = Some \<lparr>url = ''https://devsc.wodify.com/a'', name = ''X_OS'', suffix = ''OS''\<rparr>
   \<and> length (filter (\<lambda>m. url m = ''https://devsc.wodify.com/a'')
        [\<lparr>url = ''https://devsc.wodify.com/a'', name = ''X_OS'', suffix = ''OS''\<rparr>,
         \<lparr>url = ''https://devsc.wodify.com/b'', name = ''Y_UI'', suffix = ''UI''\<rparr>]) = 1"
  using exampleScan_snapshot exampleScan_captured
    snapshot_url_unique_first_seen [where lc = localeCompare and requestedLayers = None
      and i = exampleScan and k = "''https://devsc.wodify.com/a''"
      and ss = "[\<lparr>url = ''https://devsc.wodify.com/a'', name = ''X_OS'', suffix = ''OS''\<rparr>,
                \<lparr>url = ''https://devsc.wodify.com/b'', name = ''Y_UI'', suffix = ''UI''\<rparr>]"]
  by simp

text \<open>
  Claim C7 as stated fails. The example scan captures the url \<^verbatim>\<open>a\<close> twice; run
  with the layer argument \<^verbatim>\<open>is\<close>, it writes a snapshot with no record for that url.
\<close>

theorem filtered_snapshot_drops_captured_url:
  "fst (parseRequestedLayers [''is'']) = Some [''IS'']
   \<and> map url (captured (rowsRead (pages exampleScan) (recheck exampleScan))) =
       [''https://devsc.wodify.com/a'', ''https://devsc.wodify.com/b'', ''https://devsc.wodify.com/a'']
   \<and> snapshot (scanModules localeCompare (fst (parseRequestedLayers [''is''])) exampleScan)
       = Some []"
  by code_simp

section \<open>Properties of a failing scan\<close>

text \<open>
  When \<^verbatim>\<open>scrapeModulesWithWarnings\<close> throws, the variable \<^verbatim>\<open>modules\<close> of
  \<^verbatim>\<open>scanModules\<close> is still the empty array it was initialised with: the map the loop
  filled is local to the function that threw. The \<^verbatim>\<open>catch\<close> block saves only a
  non-empty \<^verbatim>\<open>modules\<close>, so the file is not written.
\<close>

lemma scan_throw_writes_nothing:
  "scrapeModulesWithWarnings (pages i) (recheck i) = Threw \<Longrightarrow>
   scanModules lc requestedLayers i = \<lparr>snapshot = None, promise = Resolved None\<rparr>"
  by (simp add: scanModules_def scanCatch_def)

text \<open>
  Claim C2, what the code does instead. Whenever \<^verbatim>\<open>scrapeModulesWithWarnings\<close>
  throws, whatever its loop had accumulated, \<^verbatim>\<open>scanModules\<close> writes no snapshot;
  it resolves with \<^verbatim>\<open>undefined\<close>, and the caller reports that the scan finished
  with errors. The claim asks for the accumulated records to be saved.
\<close>

theorem scan_error_discards_accumulated:
  assumes "scrapeModulesWithWarnings (pages i) (recheck i) = Threw"
  shows "scanModules lc requestedLayers i = \<lparr>snapshot = None, promise = Resolved None\<rparr>
       \<and> scanReport (promise (scanModules lc requestedLayers i)) = FinishedWithErrors"
  using scan_throw_writes_nothing [OF assms] by (simp add: scanReport_def)

text \<open>
  The failing input: the scan reads the four example rows and has two records in its map;
  the wait for the next page then times out. Nothing is written.
\<close>

theorem scan_error_discards_accumulated_witness:
  "Map_values (foldl scanRow [] (loopRows (pages failingScan))) =
     [\<lparr>url = ''https://devsc.wodify.com/a'', name = ''X_OS'', suffix = ''OS''\<rparr>,
      \<lparr>url = ''https://devsc.wodify.com/b'', name = ''Y_UI'', suffix = ''UI''\<rparr>]
   \<and> scrapeModulesWithWarnings (pages failingScan) (recheck failingScan) = Threw
   \<and> scanModules localeCompare None failingScan = \<lparr>snapshot = None, promise = Resolved None\<rparr>
   \<and> scanReport (promise (scanModules localeCompare None failingScan)) = FinishedWithErrors"
proof -
  have a: "Map_values (foldl scanRow [] (loopRows (pages failingScan))) =
     [\<lparr>url = ''https://devsc.wodify.com/a'', name = ''X_OS'', suffix = ''OS''\<rparr>,
      \<lparr>url = ''https://devsc.wodify.com/b'', name = ''Y_UI'', suffix = ''UI''\<rparr>]"
    by code_simp
  have t: "scrapeModulesWithWarnings (pages failingScan) (recheck failingScan) = Threw"
    by code_simp
  show ?thesis
    using a t scan_error_discards_accumulated [OF t, of localeCompare None] by blast
qed

section \<open>Properties of the tabs\<close>

lemma processTabRound_rejects:
  assumes "fst (getNextTask (queue s)) = Some t" "t \<noteq> []"
  shows "processTabRound w GotoRejects s =
           s\<lparr>queue := snd (getNextTask (queue s)), running := removeAll w (running s),
              trace := trace s @ [(w, Claimed t), (w, Processing (rewriteUrl (fst w) t)),
                                  (w, TabError), (w, TabFinished)]\<rparr>"
  using assms by (simp add: processTabRound_def split_beta Let_def)

text \<open>
  Claim C3, what the code does instead. When the first navigation of a claimed item (line
  267) rejects, the tab prints the error and is finished: it is not retried, and no later
  round of that tab happens, whatever is left in the queue. (The item is a non-empty url:
  a tab that is given the empty string is finished before it navigates.) The claim asks
  for the navigation to be retried and for the tab to go on with the next item.
\<close>

theorem navigation_timeout_ends_tab:
  assumes "fst (getNextTask (queue s)) = Some t"
  shows "w \<notin> set (running (processTabRound w GotoRejects s))
       \<and> (t \<noteq> [] \<longrightarrow>
            trace (processTabRound w GotoRejects s) =
              trace s @ [(w, Claimed t), (w, Processing (rewriteUrl (fst w) t)),
                         (w, TabError), (w, TabFinished)])
       \<and> runTabs [(w, i)] (processTabRound w GotoRejects s) = processTabRound w GotoRejects s"
proof (cases "t = []")
  case True
  with assms show ?thesis
    by (simp add: processTabRound_def split_beta leaveLoop_def)
next
  case False
  with assms show ?thesis
    by (simp add: processTabRound_rejects)
qed

text \<open>
  The failing inputs: one tab whose first navigation rejects, with two items left in the
  queue; and a run in which the login resolves on one subdomain only and the first
  navigation of both its tabs rejects, so that no tab is left running and the third item
  is never claimed.
\<close>

theorem navigation_timeout_ends_tab_witness:
  "fst (getNextTask (queue examplePool)) = Some ''https://devsc.wodify.com/a''
   \<and> (''dev'', 0) \<notin> set (running (processTabRound (''dev'', 0) GotoRejects examplePool))
   \<and>running (processURLs ''dev'' (\<lambda>subdomain. True) exampleSnapshot None
             [((''dev'', 0), GotoRejects), ((''dev'', 0), NotInWarning)])
     = [(''dev'', 1), (''dev-coreap'', 0), (''dev-coreap'', 1), (''dev-clientapp'', 0),
        (''dev-clientapp'', 1), (''dev-coreos'', 0), (''dev-coreos'', 1), (''devsc'', 0),
        (''devsc'', 1)]
   \<and> trace (processURLs ''dev'' (\<lambda>subdomain. True) exampleSnapshot None
             [((''dev'', 0), GotoRejects), ((''dev'', 0), NotInWarning)])
     = [((''dev'', 0), Claimed ''https://devsc.wodify.com/a''),
        ((''dev'', 0), Processing ''https://dev.wodify.com/a''),
        ((''dev'', 0), TabError), ((''dev'', 0), TabFinished)]
   \<and> running (processURLs ''dev'' (\<lambda>subdomain. subdomain = ''dev'') exampleSnapshot None
               failingSchedule) = []
   \<and> dispatchedAll (processURLs ''dev'' (\<lambda>subdomain. subdomain = ''dev'') exampleSnapshot None
               failingSchedule)
     = [''https://devsc.wodify.com/a'', ''https://devsc.wodify.com/b'']
   \<and> queue (processURLs ''dev'' (\<lambda>subdomain. subdomain = ''dev'') exampleSnapshot None
               failingSchedule)
     = \<lparr>taskQueue = [''https://devsc.wodify.com/a'', ''https://devsc.wodify.com/b'',
                     ''https://devsc.wodify.com/c''], taskIndex = 2\<rparr>"
proof -
  have g: "fst (getNextTask (queue examplePool)) = Some ''https://devsc.wodify.com/a''"
    by (simp add: examplePool_eval getNextTask_def)
  have e:
  "running (processURLs ''dev'' (\<lambda>subdomain. True) exampleSnapshot None
             [((''dev'', 0), GotoRejects), ((''dev'', 0), NotInWarning)])
     = [(''dev'', 1), (''dev-coreap'', 0), (''dev-coreap'', 1), (''dev-clientapp'', 0),
        (''dev-clientapp'', 1), (''dev-coreos'', 0), (''dev-coreos'', 1), (''devsc'', 0),
        (''devsc'', 1)]
   \<and> trace (processURLs ''dev'' (\<lambda>subdomain. True) exampleSnapshot None
             [((''dev'', 0), GotoRejects), ((''dev'', 0), NotInWarning)])
     = [((''dev'', 0), Claimed ''https://devsc.wodify.com/a''),
        ((''dev'', 0), Processing ''https://dev.wodify.com/a''),
        ((''dev'', 0), TabError), ((''dev'', 0), TabFinished)]
   \<and> running (processURLs ''dev'' (\<lambda>subdomain. subdomain = ''dev'') exampleSnapshot None
               failingSchedule) = []
   \<and> dispatchedAll (processURLs ''dev'' (\<lambda>subdomain. subdomain = ''dev'') exampleSnapshot None
               failingSchedule)
     = [''https://devsc.wodify.com/a'', ''https://devsc.wodify.com/b'']
   \<and> queue (processURLs ''dev'' (\<lambda>subdomain. subdomain = ''dev'') exampleSnapshot None
               failingSchedule)
     = \<lparr>taskQueue = [''https://devsc.wodify.com/a'', ''https://devsc.wodify.com/b'',
                     ''https://devsc.wodify.com/c''], taskIndex = 2\<rparr>"
    by code_simp
  show ?thesis
    using g e navigation_timeout_ends_tab [OF g, of "(''dev'', 0)"] by blast
qed

section \<open>Properties of a publish run\<close>

lemma served_round:
  assumes "served q s"
  shows "served q (processTabRound w i s)"
proof (cases "taskIndex (queue s) < length (taskQueue (queue s))")
  case True
  let ?n = "taskIndex (queue s)"
  have q: "taskQueue (queue s) = q"
    and d: "dispatchedAll s = filter (\<lambda>t. t \<noteq> []) (take ?n q)"
    and e: "leftAtNoTask s \<longrightarrow> [] \<in> set (take ?n q)"
    using assms True by (auto simp: served_def)
  have t: "take (Suc ?n) q = take ?n q @ [q ! ?n]"
    using True q by (simp add: take_Suc_conv_app_nth)
  have g: "getNextTask (queue s) = (Some (q ! ?n), (queue s)\<lparr>taskIndex := ?n + 1\<rparr>)"
    using True q by (simp add: getNextTask_def)
  show ?thesis
  proof (cases "q ! ?n = []")
    case empty: True
    show ?thesis
      using True q d t empty
      by (simp add: served_def processTabRound_def g leaveLoop_def dispatchedAll_def
          dispatchLog_def leftAtNoTask_def)
  next
    case False
    show ?thesis
      using True q d e t False
      by (cases i)
        (auto simp: served_def processTabRound_def g Let_def dispatchedAll_def
          dispatchLog_def leftAtNoTask_def)
  qed
next
  case False
  then show ?thesis
    using assms
    by (auto simp: served_def processTabRound_def getNextTask_def leaveLoop_def
        dispatchedAll_def dispatchLog_def leftAtNoTask_def)
qed

lemma served_runTabs: "served q s \<Longrightarrow> served q (runTabs es s)"
proof (induction es arbitrary: s)
  case Nil
  then show ?case by simp
next
  case (Cons e es)
  obtain w i where e: "e = (w, i)" by (cases e)
  show ?case
    using Cons.IH [of "processTabRound w i s"] Cons.IH [of s] Cons.prems served_round [of q s w i]
    by (simp add: e)
qed

lemma served_processURLs:
  "served (map url (filterModulesByRequestedLayers moduleData requestedLayers))
     (processURLs env loginResolves moduleData requestedLayers schedule)"
  unfolding processURLs_def
  by (rule served_runTabs)
    (simp add: served_def initialQueue_def dispatchedAll_def dispatchLog_def leftAtNoTask_def)

lemma groups_disjoint:
  assumes "distinct (map snd l)" "g \<noteq> g'"
  shows "set (map snd (filter (\<lambda>(a, t). a = g) l)) \<inter> set (map snd (filter (\<lambda>(a, t). a = g') l)) = {}"
proof -
  have inj: "inj_on snd (set l)"
    using assms(1) by (simp add: distinct_map)
  show ?thesis
  proof (rule ccontr)
    assume "\<not> ?thesis"
    then obtain t where "(g, t) \<in> set l" "(g', t) \<in> set l"
      by auto
    with inj_onD [OF inj, of "(g, t)" "(g', t)"] have "(g, t) = (g', t)"
      by simp
    with assms(2) show False by simp
  qed
qed

text \<open>
  Claim C1, as amended. A publish run has one queue, filled once with the urls of the
  filtered snapshot, and the tabs of all groups take from it. Whatever the schedule and
  whichever logins resolve, for a snapshot with distinct urls: the items given out over
  all groups are the non-empty urls below the counter, in the order of the queue, each
  once; within a group no item is given out twice; no item is given out in two groups;
  when the counter has reached the end of the queue, every non-empty url has been given
  out, to one tab of one group; and when no url is empty and a tab has left its loop at
  \<^verbatim>\<open>if (!task) break\<close>, every item has been given out.
\<close>

theorem one_queue_shared_by_all_groups:
  assumes "distinct (map url moduleData)"
  shows "let s = processURLs env loginResolves moduleData requestedLayers schedule;
             q = map url (filterModulesByRequestedLayers moduleData requestedLayers)
         in dispatchedAll s = filter (\<lambda>t. t \<noteq> []) (take (taskIndex (queue s)) q)
            \<and> distinct (dispatchedAll s)
            \<and> distinct (dispatched g s)
            \<and> (g \<noteq> g' \<longrightarrow> set (dispatched g s) \<inter> set (dispatched g' s) = {})
            \<and> (taskIndex (queue s) = length q \<longrightarrow> dispatchedAll s = filter (\<lambda>t. t \<noteq> []) q)
            \<and> (leftAtNoTask s \<and> [] \<notin> set q \<longrightarrow> dispatchedAll s = q)"
proof -
  let ?s = "processURLs env loginResolves moduleData requestedLayers schedule"
  let ?q = "map url (filterModulesByRequestedLayers moduleData requestedLayers)"
  have sv: "served ?q ?s" by (rule served_processURLs)
  have dq: "distinct ?q"
    using assms by (auto simp: filterModulesByRequestedLayers_def distinct_map_filter split: option.splits)
  have a: "dispatchedAll ?s = filter (\<lambda>t. t \<noteq> []) (take (taskIndex (queue ?s)) ?q)"
    using sv by (simp add: served_def)
  have b: "distinct (dispatchedAll ?s)"
    using dq by (simp add: a)
  have c: "distinct (dispatched g ?s)"
    using b by (simp add: dispatched_def dispatchedAll_def distinct_map_filter)
  have d: "set (dispatched g ?s) \<inter> set (dispatched g' ?s) = {}" if "g \<noteq> g'"
    unfolding dispatched_def using b that by (intro groups_disjoint) (simp_all add: dispatchedAll_def)
  have e: "dispatchedAll ?s = filter (\<lambda>t. t \<noteq> []) ?q" if "taskIndex (queue ?s) = length ?q"
    using a that by simp
  have f: "dispatchedAll ?s = ?q" if "leftAtNoTask ?s" "[] \<notin> set ?q"
  proof -
    have "[] \<notin> set (take (taskIndex (queue ?s)) ?q)"
      using that(2) by (auto dest: in_set_takeD)
    with sv that(1) have "taskIndex (queue ?s) = length ?q"
      by (simp add: served_def)
    moreover have "\<forall>t \<in> set ?q. t \<noteq> []"
      using that(2) by metis
    then have "filter (\<lambda>t. t \<noteq> []) ?q = ?q"
      by (rule filter_True)
    ultimately show ?thesis using a by simp
  qed
  show ?thesis
    unfolding Let_def using a b c d e f by blast
qed

lemma exampleRun_eval:
  "dispatchedAll (processURLs ''dev'' (\<lambda>subdomain. True) exampleSnapshot None exampleSchedule)
     = map url exampleSnapshot"
  "dispatched ''dev'' (processURLs ''dev'' (\<lambda>subdomain. True) exampleSnapshot None exampleSchedule)
     = [''https://devsc.wodify.com/a'', ''https://devsc.wodify.com/c'']"
  "dispatched ''dev-coreap'' (processURLs ''dev'' (\<lambda>subdomain. True) exampleSnapshot None exampleSchedule)
     = [''https://devsc.wodify.com/b'']"
  "dispatched ''devsc'' (processURLs ''dev'' (\<lambda>subdomain. True) exampleSnapshot None exampleSchedule)
     = []"
  "running (processURLs ''dev'' (\<lambda>subdomain. True) exampleSnapshot None exampleSchedule) = []"
  "leftAtNoTask (processURLs ''dev'' (\<lambda>subdomain. True) exampleSnapshot None exampleSchedule)"
  "filterModulesByRequestedLayers exampleSnapshot None = exampleSnapshot"
  by code_simp+

text \<open>The complete example run: two items go to the first group, one to the second.\<close>

theorem one_queue_shared_by_all_groups_witness:
  "distinct (map url exampleSnapshot)
   \<and> [] \<notin> set (map url exampleSnapshot)
   \<and> leftAtNoTask (processURLs ''dev'' (\<lambda>subdomain. True) exampleSnapshot None exampleSchedule)
   \<and> dispatchedAll (processURLs ''dev'' (\<lambda>subdomain. True) exampleSnapshot None exampleSchedule)
       = map url exampleSnapshot
   \<and> dispatched ''dev'' (processURLs ''dev'' (\<lambda>subdomain. True) exampleSnapshot None exampleSchedule)
       = [''https://devsc.wodify.com/a'', ''https://devsc.wodify.com/c'']
   \<and> dispatched ''dev-coreap'' (processURLs ''dev'' (\<lambda>subdomain. True) exampleSnapshot None exampleSchedule)
       = [''https://devsc.wodify.com/b'']
   \<and> set (dispatched ''dev'' (processURLs ''dev'' (\<lambda>subdomain. True) exampleSnapshot None exampleSchedule))
       \<inter> set (dispatched ''dev-coreap'' (processURLs ''dev'' (\<lambda>subdomain. True) exampleSnapshot None exampleSchedule))
       = {}"
proof -
  have d: "distinct (map url exampleSnapshot)"
    by (simp add: exampleSnapshot_def)
  have ne: "[] \<notin> set (map url exampleSnapshot)"
    by (simp add: exampleSnapshot_def)
  have n: "''dev'' \<noteq> ''dev-coreap''" by simp
  show ?thesis
    using d ne n exampleRun_eval(2,3,6)
      one_queue_shared_by_all_groups [OF d, of "''dev''" "\<lambda>subdomain. True" None exampleSchedule
        "''dev''" "''dev-coreap''"]
    unfolding Let_def exampleRun_eval(7) by blast
qed

text \<open>
  Claim C1 as stated fails. In the complete example run every tab of every group has
  finished, and the first item of the snapshot was given out once in the first group and
  not at all in the second and in the fifth.
\<close>

theorem groups_do_not_each_get_every_item:
  "running (processURLs ''dev'' (\<lambda>subdomain. True) exampleSnapshot None exampleSchedule) = []
   \<and> ''https://devsc.wodify.com/a''
       \<in> set (map url (filterModulesByRequestedLayers exampleSnapshot None))
   \<and> count_list (dispatched ''dev''
        (processURLs ''dev'' (\<lambda>subdomain. True) exampleSnapshot None exampleSchedule))
        ''https://devsc.wodify.com/a'' = 1
   \<and> count_list (dispatched ''dev-coreap''
        (processURLs ''dev'' (\<lambda>subdomain. True) exampleSnapshot None exampleSchedule))
        ''https://devsc.wodify.com/a'' = 0
   \<and> count_list (dispatched ''devsc''
        (processURLs ''dev'' (\<lambda>subdomain. True) exampleSnapshot None exampleSchedule))
        ''https://devsc.wodify.com/a'' = 0"
proof -
  have "''https://devsc.wodify.com/a'' \<in> set (map url exampleSnapshot)"
    by (simp add: exampleSnapshot_def)
  then show ?thesis
    by (simp add: exampleRun_eval)
qed

section \<open>Properties of the sort\<close>

lemma indexOf_ge: "- 1 \<le> indexOf xs x"
  by (induction xs) (auto simp: Let_def)

lemma indexOf_absent: "indexOf xs x = - 1 \<longleftrightarrow> x \<notin> set xs"
proof (induction xs)
  case Nil
  then show ?case by simp
next
  case (Cons y ys)
  then show ?case
    using indexOf_ge [of ys x] by (auto simp: Let_def)
qed

lemma rank_infinite: "rank s = \<infinity> \<longleftrightarrow> s \<notin> set PROCESSING_HIERARCHY"
  by (simp add: rank_def indexOf_absent)

lemma reassignsRank_never: "\<not> reassignsRank s"
  by (auto simp: reassignsRank_def rank_infinite PROCESSING_HIERARCHY_def)

lemma rankMinus_le: "ra \<noteq> rb \<Longrightarrow> rankMinus ra rb \<le> 0 \<longleftrightarrow> ra < rb"
  by (cases ra; cases rb) auto

lemma rankMinus_less: "ra \<noteq> rb \<Longrightarrow> rankMinus ra rb < 0 \<longleftrightarrow> ra < rb"
  by (cases ra; cases rb) auto

lemma compareModules_le:
  "compareModules lc a b \<le> 0 \<longleftrightarrow>
     rank (suffix a) < rank (suffix b)
     \<or> rank (suffix a) = rank (suffix b) \<and> lc (name a) (name b) \<le> 0"
  by (auto simp: compareModules_def Let_def rankMinus_le)

lemma compareModules_less:
  "compareModules lc a b < 0 \<longleftrightarrow>
     rank (suffix a) < rank (suffix b)
     \<or> rank (suffix a) = rank (suffix b) \<and> lc (name a) (name b) < 0"
  by (auto simp: compareModules_def Let_def rankMinus_less)

lemma compareModules_greater:
  "0 < compareModules lc a b \<longleftrightarrow>
     rank (suffix b) < rank (suffix a)
     \<or> rank (suffix a) = rank (suffix b) \<and> 0 < lc (name a) (name b)"
  using compareModules_le [of lc a b] by (auto simp: compareModules_def Let_def)

lemma consistent_compareModules:
  assumes "consistent lc"
  shows "consistent (compareModules lc)"
proof -
  have r: "lc a a = 0" and s: "(lc a b < 0) = (0 < lc b a)"
    and t: "lc a b \<le> 0 \<Longrightarrow> lc b c \<le> 0 \<Longrightarrow> lc a c \<le> 0" for a b c
    using assms unfolding consistent_def by blast+
  have "compareModules lc a a = 0" for a
    by (simp add: compareModules_def r)
  moreover have "(compareModules lc a b < 0) = (0 < compareModules lc b a)" for a b
    unfolding compareModules_less compareModules_greater using s [of "name a" "name b"] by auto
  moreover have "compareModules lc a c \<le> 0"
    if "compareModules lc a b \<le> 0" "compareModules lc b c \<le> 0" for a b c
    using that t [of "name a" "name b" "name c"] unfolding compareModules_le by auto
  ultimately show ?thesis
    unfolding consistent_def by blast
qed

lemma set_insertBy: "set (insertBy cmp x ys) = insert x (set ys)"
  by (induction ys) auto

lemma sorted_insertBy:
  assumes "consistent cmp" "sorted_wrt (\<lambda>a b. cmp a b \<le> 0) ys"
  shows "sorted_wrt (\<lambda>a b. cmp a b \<le> 0) (insertBy cmp x ys)"
  using assms(2)
proof (induction ys)
  case Nil
  then show ?case by simp
next
  case (Cons y ys)
  have s: "(cmp a b < 0) = (0 < cmp b a)"
    and t: "cmp a b \<le> 0 \<Longrightarrow> cmp b c \<le> 0 \<Longrightarrow> cmp a c \<le> 0" for a b c
    using assms(1) unfolding consistent_def by blast+
  show ?case
  proof (cases "cmp x y \<le> 0")
    case True
    then have "cmp x z \<le> 0" if "z \<in> set ys" for z
      using Cons.prems that t [of x y z] by auto
    with True Cons.prems show ?thesis by auto
  next
    case False
    then have "cmp y x \<le> 0" using s [of y x] by simp
    with False Cons show ?thesis by (auto simp: set_insertBy)
  qed
qed

lemma sorted_Array_sort:
  "consistent cmp \<Longrightarrow> sorted_wrt (\<lambda>a b. cmp a b \<le> 0) (Array_sort cmp xs)"
  by (induction xs) (simp_all add: Array_sort_def sorted_insertBy)

lemma filter_insertBy:
  assumes "consistent cmp"
  shows "filter (\<lambda>y. cmp y e = 0) (insertBy cmp x ys) =
           (if cmp x e = 0 then x # filter (\<lambda>y. cmp y e = 0) ys
            else filter (\<lambda>y. cmp y e = 0) ys)"
proof (induction ys)
  case Nil
  then show ?case by simp
next
  case (Cons y ys)
  have s: "(cmp a b < 0) = (0 < cmp b a)"
    and t: "cmp a b \<le> 0 \<Longrightarrow> cmp b c \<le> 0 \<Longrightarrow> cmp a c \<le> 0" for a b c
    using assms(1) unfolding consistent_def by blast+
  have both: "cmp x y \<le> 0" if "cmp x e = 0" "cmp y e = 0"
  proof -
    have "cmp e y \<le> 0" using s [of e y] s [of y e] that(2) by simp
    then show ?thesis using t [of x e y] that(1) by simp
  qed
  show ?case
    using Cons both by auto
qed

lemma filter_Array_sort:
  "consistent cmp \<Longrightarrow>
   filter (\<lambda>y. cmp y e = 0) (Array_sort cmp xs) = filter (\<lambda>y. cmp y e = 0) xs"
  by (induction xs) (simp_all add: Array_sort_def filter_insertBy)

lemma localeCompare_le: "localeCompare a b \<le> 0 \<longleftrightarrow> collationKey a \<le> collationKey b"
  by (auto simp: localeCompare_def)

lemma consistent_localeCompare: "consistent localeCompare"
  unfolding consistent_def localeCompare_def by auto

lemma indexOf_nth: "distinct xs \<Longrightarrow> k < length xs \<Longrightarrow> indexOf xs (xs ! k) = int k"
proof (induction xs arbitrary: k)
  case Nil
  then show ?case by simp
next
  case (Cons x xs)
  show ?case
  proof (cases k)
    case 0
    then show ?thesis by simp
  next
    case (Suc k')
    with Cons.prems have "x \<noteq> xs ! k'" "indexOf xs (xs ! k') = int k'"
      using Cons.IH [of k'] by auto
    with Suc show ?thesis by (simp add: Let_def)
  qed
qed

lemma rank_nth:
  "k < length PROCESSING_HIERARCHY \<Longrightarrow> rank (PROCESSING_HIERARCHY ! k) = enat k"
proof -
  assume k: "k < length PROCESSING_HIERARCHY"
  have "distinct PROCESSING_HIERARCHY"
    by (simp add: PROCESSING_HIERARCHY_def)
  from indexOf_nth [OF this k] show ?thesis
    by (simp add: rank_def)
qed

lemma sorted_by_hierarchy:
  assumes "consistent lc" "i < j" "j < length ms"
  shows "rank (suffix (sortModulesByHierarchy lc ms ! i))
           \<le> rank (suffix (sortModulesByHierarchy lc ms ! j))"
    and "rank (suffix (sortModulesByHierarchy lc ms ! i))
           = rank (suffix (sortModulesByHierarchy lc ms ! j))
         \<Longrightarrow> lc (name (sortModulesByHierarchy lc ms ! i)) (name (sortModulesByHierarchy lc ms ! j)) \<le> 0"
    and "suffix (sortModulesByHierarchy lc ms ! i) \<notin> set PROCESSING_HIERARCHY
         \<Longrightarrow> suffix (sortModulesByHierarchy lc ms ! j) \<notin> set PROCESSING_HIERARCHY"
proof -
  let ?out = "sortModulesByHierarchy lc ms"
  have len: "length ?out = length ms"
    unfolding sortModulesByHierarchy_def by (metis mset_Array_sort size_mset)
  have "sorted_wrt (\<lambda>a b. compareModules lc a b \<le> 0) ?out"
    unfolding sortModulesByHierarchy_def
    by (rule sorted_Array_sort [OF consistent_compareModules [OF assms(1)]])
  then have c: "compareModules lc (?out ! i) (?out ! j) \<le> 0"
    using assms(2,3) len by (simp add: sorted_wrt_iff_nth_less)
  then show le: "rank (suffix (?out ! i)) \<le> rank (suffix (?out ! j))"
    unfolding compareModules_le by auto
  show "lc (name (?out ! i)) (name (?out ! j)) \<le> 0"
    if "rank (suffix (?out ! i)) = rank (suffix (?out ! j))"
    using c that unfolding compareModules_le by auto
  show "suffix (?out ! j) \<notin> set PROCESSING_HIERARCHY"
    if "suffix (?out ! i) \<notin> set PROCESSING_HIERARCHY"
    using le that by (simp add: rank_infinite [symmetric])
qed

text \<open>
  Claim C5, as amended. For every consistent name comparison \<open>lc\<close>, the sorted list is
  a permutation of the input (the sort is total); of two records the earlier one never has
  the greater rank, and at equal rank the name comparison puts its name first or level;
  a record whose suffix is outside the hierarchy is followed by such records only; and the
  records that compare equal to a given one keep the order they had in the input (the sort
  is stable). The comparison the code uses, \<open>localeCompare\<close>, is consistent, and with it
  records of equal rank, their names made of ASCII letters, digits and underscores, are in
  the order of the collation keys of their names: by their characters with the case
  ignored, then lower case before upper case. The rank of a
  suffix is its place in the hierarchy, and infinite exactly for a suffix outside it.
\<close>

theorem sort_by_hierarchy_then_name:
  "(consistent lc \<longrightarrow>
      (let out = sortModulesByHierarchy lc ms
       in mset out = mset ms
          \<and> (\<forall>i j. i < j \<and> j < length ms \<longrightarrow>
                rank (suffix (out ! i)) \<le> rank (suffix (out ! j))
                \<and> (rank (suffix (out ! i)) = rank (suffix (out ! j)) \<longrightarrow>
                     lc (name (out ! i)) (name (out ! j)) \<le> 0)
                \<and> (suffix (out ! i) \<notin> set PROCESSING_HIERARCHY \<longrightarrow>
                     suffix (out ! j) \<notin> set PROCESSING_HIERARCHY))
          \<and> (\<forall>e. filter (\<lambda>y. compareModules lc y e = 0) out
                   = filter (\<lambda>y. compareModules lc y e = 0) ms)))
   \<and> consistent localeCompare
   \<and> ((\<forall>m \<in> set ms. collated (name m)) \<longrightarrow>
        (let out = sortModulesByHierarchy localeCompare ms
         in \<forall>i j. i < j \<and> j < length ms \<and> rank (suffix (out ! i)) = rank (suffix (out ! j)) \<longrightarrow>
              collationKey (name (out ! i)) \<le> collationKey (name (out ! j))))
   \<and> (\<forall>k < length PROCESSING_HIERARCHY. rank (PROCESSING_HIERARCHY ! k) = enat k)
   \<and> (\<forall>s. s \<notin> set PROCESSING_HIERARCHY \<longleftrightarrow> rank s = \<infinity>)"
proof -
  have general:
    "let out = sortModulesByHierarchy lc ms
     in mset out = mset ms
        \<and> (\<forall>i j. i < j \<and> j < length ms \<longrightarrow>
              rank (suffix (out ! i)) \<le> rank (suffix (out ! j))
              \<and> (rank (suffix (out ! i)) = rank (suffix (out ! j)) \<longrightarrow>
                   lc (name (out ! i)) (name (out ! j)) \<le> 0)
              \<and> (suffix (out ! i) \<notin> set PROCESSING_HIERARCHY \<longrightarrow>
                   suffix (out ! j) \<notin> set PROCESSING_HIERARCHY))
        \<and> (\<forall>e. filter (\<lambda>y. compareModules lc y e = 0) out
                 = filter (\<lambda>y. compareModules lc y e = 0) ms)"
    if c: "consistent lc"
  proof -
    have m: "mset (sortModulesByHierarchy lc ms) = mset ms"
      by (simp add: sortModulesByHierarchy_def mset_Array_sort)
    have f: "\<forall>e. filter (\<lambda>y. compareModules lc y e = 0) (sortModulesByHierarchy lc ms)
        = filter (\<lambda>y. compareModules lc y e = 0) ms"
      unfolding sortModulesByHierarchy_def
      by (intro allI filter_Array_sort [OF consistent_compareModules [OF c]])
    have ord: "\<forall>i j. i < j \<and> j < length ms \<longrightarrow>
              rank (suffix (sortModulesByHierarchy lc ms ! i))
                \<le> rank (suffix (sortModulesByHierarchy lc ms ! j))
              \<and> (rank (suffix (sortModulesByHierarchy lc ms ! i))
                   = rank (suffix (sortModulesByHierarchy lc ms ! j)) \<longrightarrow>
                   lc (name (sortModulesByHierarchy lc ms ! i))
                      (name (sortModulesByHierarchy lc ms ! j)) \<le> 0)
              \<and> (suffix (sortModulesByHierarchy lc ms ! i) \<notin> set PROCESSING_HIERARCHY \<longrightarrow>
                   suffix (sortModulesByHierarchy lc ms ! j) \<notin> set PROCESSING_HIERARCHY)"
    proof (intro allI impI conjI)
      fix i j
      assume ij: "i < j \<and> j < length ms"
      then have i: "i < j" and j: "j < length ms" by simp_all
      show "rank (suffix (sortModulesByHierarchy lc ms ! i))
                \<le> rank (suffix (sortModulesByHierarchy lc ms ! j))"
        by (rule sorted_by_hierarchy(1) [OF c i j])
      show "lc (name (sortModulesByHierarchy lc ms ! i))
               (name (sortModulesByHierarchy lc ms ! j)) \<le> 0"
        if "rank (suffix (sortModulesByHierarchy lc ms ! i))
              = rank (suffix (sortModulesByHierarchy lc ms ! j))"
        by (rule sorted_by_hierarchy(2) [OF c i j that])
      show "suffix (sortModulesByHierarchy lc ms ! j) \<notin> set PROCESSING_HIERARCHY"
        if "suffix (sortModulesByHierarchy lc ms ! i) \<notin> set PROCESSING_HIERARCHY"
        by (rule sorted_by_hierarchy(3) [OF c i j that])
    qed
    show ?thesis
      unfolding Let_def by (intro conjI m ord f)
  qed
  have collation:
    "let out = sortModulesByHierarchy localeCompare ms
     in \<forall>i j. i < j \<and> j < length ms \<and> rank (suffix (out ! i)) = rank (suffix (out ! j)) \<longrightarrow>
          collationKey (name (out ! i)) \<le> collationKey (name (out ! j))"
    unfolding Let_def
  proof (intro allI impI)
    fix i j
    assume a: "i < j \<and> j < length ms
      \<and> rank (suffix (sortModulesByHierarchy localeCompare ms ! i))
          = rank (suffix (sortModulesByHierarchy localeCompare ms ! j))"
    then have "localeCompare (name (sortModulesByHierarchy localeCompare ms ! i))
        (name (sortModulesByHierarchy localeCompare ms ! j)) \<le> 0"
      by (intro sorted_by_hierarchy(2) [OF consistent_localeCompare]) simp_all
    then show "collationKey (name (sortModulesByHierarchy localeCompare ms ! i))
        \<le> collationKey (name (sortModulesByHierarchy localeCompare ms ! j))"
      by (simp only: localeCompare_le)
  qed
  have collation': "(\<forall>m \<in> set ms. collated (name m)) \<longrightarrow>
        (let out = sortModulesByHierarchy localeCompare ms
         in \<forall>i j. i < j \<and> j < length ms \<and> rank (suffix (out ! i)) = rank (suffix (out ! j)) \<longrightarrow>
              collationKey (name (out ! i)) \<le> collationKey (name (out ! j)))"
    using collation by (rule impI)
  have g: "consistent lc \<longrightarrow>
      (let out = sortModulesByHierarchy lc ms
       in mset out = mset ms
          \<and> (\<forall>i j. i < j \<and> j < length ms \<longrightarrow>
                rank (suffix (out ! i)) \<le> rank (suffix (out ! j))
                \<and> (rank (suffix (out ! i)) = rank (suffix (out ! j)) \<longrightarrow>
                     lc (name (out ! i)) (name (out ! j)) \<le> 0)
                \<and> (suffix (out ! i) \<notin> set PROCESSING_HIERARCHY \<longrightarrow>
                     suffix (out ! j) \<notin> set PROCESSING_HIERARCHY))
          \<and> (\<forall>e. filter (\<lambda>y. compareModules lc y e = 0) out
                   = filter (\<lambda>y. compareModules lc y e = 0) ms))"
    using general by (rule impI)
  have r1: "\<forall>k < length PROCESSING_HIERARCHY. rank (PROCESSING_HIERARCHY ! k) = enat k"
    using rank_nth by simp
  have r2: "\<forall>s. s \<notin> set PROCESSING_HIERARCHY \<longleftrightarrow> rank s = \<infinity>"
    using rank_infinite by simp
  show ?thesis
    by (intro conjI g consistent_localeCompare collation' r1 r2)
qed

lemma exampleUnsorted_sorted:
  "sortModulesByHierarchy localeCompare exampleUnsorted =
     [\<lparr>url = ''https://devsc.wodify.com/a'', name = ''A_IS'', suffix = ''IS''\<rparr>,
      \<lparr>url = ''https://devsc.wodify.com/b1'', name = ''b_OS'', suffix = ''OS''\<rparr>,
      \<lparr>url = ''https://devsc.wodify.com/b2'', name = ''B_OS'', suffix = ''OS''\<rparr>,
      \<lparr>url = ''https://devsc.wodify.com/y'', name = ''Y_UI'', suffix = ''UI''\<rparr>,
      \<lparr>url = ''https://devsc.wodify.com/q'', name = ''Q_ZZ'', suffix = ''ZZ''\<rparr>]"
  by code_simp

text \<open>
  Five records: the one of the first layer, two of one layer whose names differ in case
  (the lower case first, though it came second), the one of the last layer, then the one
  with the unknown suffix.
\<close>

theorem sort_by_hierarchy_then_name_witness:
  "consistent localeCompare
   \<and> list_all (\<lambda>m. collated (name m)) exampleUnsorted
   \<and> sortModulesByHierarchy localeCompare exampleUnsorted =
       [\<lparr>url = ''https://devsc.wodify.com/a'', name = ''A_IS'', suffix = ''IS''\<rparr>,
        \<lparr>url = ''https://devsc.wodify.com/b1'', name = ''b_OS'', suffix = ''OS''\<rparr>,
        \<lparr>url = ''https://devsc.wodify.com/b2'', name = ''B_OS'', suffix = ''OS''\<rparr>,
        \<lparr>url = ''https://devsc.wodify.com/y'', name = ''Y_UI'', suffix = ''UI''\<rparr>,
        \<lparr>url = ''https://devsc.wodify.com/q'', name = ''Q_ZZ'', suffix = ''ZZ''\<rparr>]
   \<and> mset (sortModulesByHierarchy localeCompare exampleUnsorted) = mset exampleUnsorted
   \<and> rank (suffix (sortModulesByHierarchy localeCompare exampleUnsorted ! 1))
       = rank (suffix (sortModulesByHierarchy localeCompare exampleUnsorted ! 2))
   \<and> collationKey (name (sortModulesByHierarchy localeCompare exampleUnsorted ! 1))
       \<le> collationKey (name (sortModulesByHierarchy localeCompare exampleUnsorted ! 2))
   \<and> rank ''ZZ'' = \<infinity>"
proof -
  note t = sort_by_hierarchy_then_name [where lc = localeCompare and ms = exampleUnsorted]
  have c: "consistent localeCompare"
    by (rule t [THEN conjunct2, THEN conjunct1])
  have l: "length exampleUnsorted = 5" by (simp add: exampleUnsorted_def)
  have r: "rank (suffix (sortModulesByHierarchy localeCompare exampleUnsorted ! 1))
       = rank (suffix (sortModulesByHierarchy localeCompare exampleUnsorted ! 2))"
    by (simp add: exampleUnsorted_sorted)
  have z: "''ZZ'' \<notin> set PROCESSING_HIERARCHY" by (simp add: PROCESSING_HIERARCHY_def)
  have m: "mset (sortModulesByHierarchy localeCompare exampleUnsorted) = mset exampleUnsorted"
    using t [unfolded Let_def, THEN conjunct1, rule_format, OF c] by simp
  have a: "\<forall>m \<in> set exampleUnsorted. collated (name m)"
    by code_simp
  note col = t [unfolded Let_def, THEN conjunct2, THEN conjunct2, THEN conjunct1, THEN mp,
      OF a, rule_format, of 1 2]
  have n: "collationKey (name (sortModulesByHierarchy localeCompare exampleUnsorted ! 1))
       \<le> collationKey (name (sortModulesByHierarchy localeCompare exampleUnsorted ! 2))"
    using col r l by simp
  have i: "rank ''ZZ'' = \<infinity>"
    using t [THEN conjunct2, THEN conjunct2, THEN conjunct2, THEN conjunct2, rule_format,
        of "''ZZ''"] z by simp
  show ?thesis
    using a by (intro conjI c exampleUnsorted_sorted m r n i) (simp add: list_all_iff)
qed

text \<open>
  Claim C5 as stated fails: records of equal rank are not in the case-sensitive lexical
  order of their names, the order of the character codes. The sort puts \<^verbatim>\<open>Foo_CS\<close>
  before \<^verbatim>\<open>FooBar_CS\<close> and \<^verbatim>\<open>b_OS\<close> before \<^verbatim>\<open>B_OS\<close>; by the
  character codes each pair is the other way round.
\<close>

theorem sort_not_by_character_codes:
  "list_all (\<lambda>m. collated (name m)) exampleTies
   \<and> sortModulesByHierarchy localeCompare exampleTies =
     [\<lparr>url = ''https://devsc.wodify.com/f2'', name = ''Foo_CS'', suffix = ''CS''\<rparr>,
      \<lparr>url = ''https://devsc.wodify.com/f1'', name = ''FooBar_CS'', suffix = ''CS''\<rparr>,
      \<lparr>url = ''https://devsc.wodify.com/b1'', name = ''b_OS'', suffix = ''OS''\<rparr>,
      \<lparr>url = ''https://devsc.wodify.com/b2'', name = ''B_OS'', suffix = ''OS''\<rparr>]
   \<and> map (\<lambda>m. rank (suffix m)) (sortModulesByHierarchy localeCompare exampleTies)
       = [enat 3, enat 3, enat 6, enat 6]
   \<and> ''FooBar_CS'' < ''Foo_CS''
   \<and> \<not> ''Foo_CS'' \<le> ''FooBar_CS''
   \<and> ''B_OS'' < ''b_OS''
   \<and> \<not> ''b_OS'' \<le> ''B_OS''"
  by code_simp

end
